theory Spec2Isabelle
  imports Main "HOL-Library.Sublist"
begin

section \<open>MassPassGen: the generation engine of \<^verbatim>\<open>masspassgen.py\<close>\<close>

text \<open>
  The program is a Python class \<^verbatim>\<open>MassPassGen\<close> with a random sampler, a pattern
  expander and a writer, and a \<^verbatim>\<open>main\<close> that validates the command line and drives
  them. Python strings are modelled as \<^typ>\<open>string\<close>, Python integers as \<^typ>\<open>int\<close>.
  Everything the methods do besides returning a value (drawing random numbers, printing,
  writing a file) is threaded through an explicit \<open>world\<close>; what the methods only read
  (the values the random generator will deliver, which file operations fail, what the user
  types) is an explicit \<open>env\<close>.
\<close>

subsection \<open>Constants of Python's \<^verbatim>\<open>string\<close> module\<close>

definition ascii_lowercase :: string where
  "ascii_lowercase = ''abcdefghijklmnopqrstuvwxyz''"

definition ascii_uppercase :: string where
  "ascii_uppercase = ''ABCDEFGHIJKLMNOPQRSTUVWXYZ''"

definition ascii_letters :: string where
  "ascii_letters = ascii_lowercase @ ascii_uppercase"

definition digits :: string where
  "digits = ''0123456789''"

text \<open>The double quote, the apostrophe and the backslash are written by their codes.\<close>

definition punctuation :: string where
  "punctuation = ''!'' @ [CHR 0x22] @ ''#$%&'' @ [CHR 0x27] @ ''()*+,-./:;<=>?@[''
     @ [CHR 0x5C] @ '']^_`{|}~''"

subsection \<open>\<^verbatim>\<open>str(i)\<close> and \<^verbatim>\<open>s.replace(old, new)\<close>\<close>

fun str_nat :: "nat \<Rightarrow> string" where
  "str_nat n = (if n < 10 then [digits ! n] else str_nat (n div 10) @ [digits ! (n mod 10)])"

declare str_nat.simps [simp del]

definition str_int :: "int \<Rightarrow> string" where
  "str_int i = (if i < 0 then CHR ''-'' # str_nat (nat (- i)) else str_nat (nat i))"

text \<open>
  \<^verbatim>\<open>s.replace(old, new)\<close> scans \<open>s\<close> from the left and replaces every non-overlapping
  occurrence of \<open>old\<close>; with an empty \<open>old\<close> Python puts \<open>new\<close> before every character and
  at the end.
\<close>

function replace :: "string \<Rightarrow> string \<Rightarrow> string \<Rightarrow> string" where
  "replace s old new =
     (if old = [] then new @ concat (map (\<lambda>c. c # new) s)
      else if s = [] then []
      else if prefix old s then new @ replace (drop (length old) s) old new
      else hd s # replace (tl s) old new)"
  by pat_completeness auto
termination
  by (relation "measure (\<lambda>(s, old, new). length s)") auto

declare replace.simps [simp del]

subsection \<open>The random generator, standard output and the file system\<close>

text \<open>
  Python's process-wide generator is modelled by the sequence \<open>tape\<close> of raw values it
  will deliver and the position \<open>rng_pos\<close> of the next one; a draw among \<open>n\<close> alternatives
  reduces the raw value modulo \<open>n\<close>, so every outcome of every draw is the behaviour of
  some tape. \<open>stdin_line\<close> is the line \<^verbatim>\<open>input()\<close> reads, \<open>None\<close> at end of input.

  Opening the destination raises with the cause \<open>open_error\<close> gives for the path; \<open>None\<close>
  is success. The file object is buffered: the text of a call of \<^verbatim>\<open>f.write\<close> is taken
  into the buffer and reaches the file when the buffer is flushed, within that call, a
  later one, or the implicit close that ends the \<^verbatim>\<open>with\<close> block. The \<open>k\<close>-th call of
  \<^verbatim>\<open>f.write\<close> (counted from 0) raises with the cause \<open>write_error k\<close> gives, the flush of
  the implicit close with the cause \<open>flush_error\<close> gives. Once one of them has raised, the
  file holds the first \<open>flushed\<close> characters of the text handed to \<^verbatim>\<open>f.write\<close> so far (all
  of it when it is shorter): what reached the file may end at any point, also inside an
  entry.
\<close>

record env =
  tape :: "nat \<Rightarrow> nat"
  open_error :: "string \<Rightarrow> string option"
  write_error :: "nat \<Rightarrow> string option"
  flush_error :: "string option"
  flushed :: nat
  stdin_line :: "string option"

text \<open>
  Standard output is the list of the texts printed, one entry per call. The banner is a
  box drawn with characters outside ASCII; it is recorded as one entry of its own.
\<close>

datatype printed = Text string | Banner

record world =
  rng_pos :: nat
  stdout :: "printed list"
  files :: "string \<Rightarrow> string option"

datatype exn = ValueError | EOFError

definition print :: "string \<Rightarrow> world \<Rightarrow> world" where
  "print s w = w\<lparr>stdout := stdout w @ [Text s]\<rparr>"

text \<open>
  \<^verbatim>\<open>random.choice(seq)\<close>, one draw; the program calls it on the three non-empty constants
  above only. \<^verbatim>\<open>random.randint(a, b)\<close> raises \<open>ValueError\<close> on an empty range.
  \<^verbatim>\<open>random.choices(population, k=k)\<close> makes \<open>k\<close> draws, none when \<open>k\<close> is negative.
\<close>

definition random_choice :: "env \<Rightarrow> 'a list \<Rightarrow> world \<Rightarrow> 'a \<times> world" where
  "random_choice e seq w =
     (seq ! (tape e (rng_pos w) mod length seq), w\<lparr>rng_pos := Suc (rng_pos w)\<rparr>)"

definition randint :: "env \<Rightarrow> int \<Rightarrow> int \<Rightarrow> world \<Rightarrow> exn + int \<times> world" where
  "randint e a b w =
     (if b < a then Inl ValueError
      else Inr (a + int (tape e (rng_pos w) mod nat (b - a + 1)),
                w\<lparr>rng_pos := Suc (rng_pos w)\<rparr>))"

definition random_choices :: "env \<Rightarrow> 'a list \<Rightarrow> int \<Rightarrow> world \<Rightarrow> 'a list \<times> world" where
  "random_choices e population k w =
     (map (\<lambda>i. population ! (tape e (rng_pos w + i) mod length population)) [0..<nat k],
      w\<lparr>rng_pos := rng_pos w + nat k\<rparr>)"

subsection \<open>The class \<^verbatim>\<open>MassPassGen\<close>\<close>

text \<open>
  \<^verbatim>\<open>__init__\<close> stores the two bounds and sets \<^verbatim>\<open>self.charset\<close> to a constant that no
  method reassigns; the object is the record of the bounds and the charset is a constant.
\<close>

record MassPassGen =
  min_len :: int
  max_len :: int

definition MassPassGen_init :: "int \<Rightarrow> int \<Rightarrow> MassPassGen" where
  "MassPassGen_init mn mx = \<lparr>min_len = mn, max_len = mx\<rparr>"

definition charset :: string where
  "charset = ascii_letters @ digits @ punctuation"

text \<open>
  \<^verbatim>\<open>apply_pattern\<close>: four replacements in a row. The three random characters are drawn
  whether or not the pattern holds their tokens.
\<close>

definition apply_pattern :: "env \<Rightarrow> string \<Rightarrow> int \<Rightarrow> world \<Rightarrow> string \<times> world" where
  "apply_pattern e pattern seed w =
     (let result = pattern;
          result = replace result ''{n}'' (str_int seed);
          (a, w) = random_choice e ascii_letters w;
          result = replace result ''{a}'' [a];
          (d, w) = random_choice e digits w;
          result = replace result ''{d}'' [d];
          (s, w) = random_choice e punctuation w;
          result = replace result ''{s}'' [s]
      in (result, w))"

text \<open>
  \<^verbatim>\<open>generate_pattern_passwords\<close>: the body of the \<^verbatim>\<open>for\<close> loop over the seeds that are
  left, then the method. \<^verbatim>\<open>range(count)\<close> is \<open>[0..count - 1]\<close>, empty when \<open>count \<le> 0\<close>.
\<close>

fun pattern_loop ::
  "env \<Rightarrow> MassPassGen \<Rightarrow> string \<Rightarrow> int list \<Rightarrow> string list \<Rightarrow> world \<Rightarrow> string list \<times> world"
where
  "pattern_loop e self pattern [] passwords w = (passwords, w)"
| "pattern_loop e self pattern (i # seeds) passwords w =
     (let (pwd, w) = apply_pattern e pattern i w;
          passwords =
            (if min_len self \<le> int (length pwd) \<and> int (length pwd) \<le> max_len self
             then passwords @ [pwd] else passwords)
      in pattern_loop e self pattern seeds passwords w)"

definition generate_pattern_passwords ::
  "env \<Rightarrow> MassPassGen \<Rightarrow> string \<Rightarrow> int \<Rightarrow> world \<Rightarrow> string list \<times> world"
where
  "generate_pattern_passwords e self pattern count w =
     (let passwords = [];
          w = print ''[*] Generating pattern-based passwords...'' w
      in pattern_loop e self pattern [0..count - 1] passwords w)"

text \<open>
  \<^verbatim>\<open>generate_random_passwords\<close>. The Python set \<open>passwords\<close> is the list of its members
  without repetition, in the order they were first added; the order in which Python
  iterates over a set (and so the order of the list returned) is left open by the language,
  and nothing below depends on it. \<open>sampling_step\<close> is the body of the \<^verbatim>\<open>while\<close> loop. The
  loop has no bound on its iterations: it is a partial function, and \<open>None\<close> stands for a
  loop that never ends.
\<close>

definition set_add :: "'a \<Rightarrow> 'a list \<Rightarrow> 'a list" where
  "set_add x xs = (if x \<in> set xs then xs else xs @ [x])"

definition sampling_step :: "env \<Rightarrow> int \<Rightarrow> int \<Rightarrow> string list \<Rightarrow> world \<Rightarrow> string list \<times> world" where
  "sampling_step e count target_len passwords w =
     (let (pwd, w) = random_choices e charset target_len w;
          passwords = set_add pwd passwords;
          w = (if length passwords mod 100000 = 0
               then print (''[*] Progress: '' @ str_int (int (length passwords)) @ ''/''
                           @ str_int count) w
               else w)
      in (passwords, w))"

partial_function (option) sampling_loop ::
  "env \<Rightarrow> int \<Rightarrow> int \<Rightarrow> string list \<Rightarrow> world \<Rightarrow> (string list \<times> world) option"
where
  "sampling_loop e count target_len passwords w =
     (if int (length passwords) < count then
        (case sampling_step e count target_len passwords w of
           (passwords, w) \<Rightarrow> sampling_loop e count target_len passwords w)
      else Some (passwords, w))"

text \<open>\<^verbatim>\<open>if length:\<close> holds for an integer other than 0; \<open>None\<close> and 0 take the other branch.\<close>

definition truthy_int :: "int option \<Rightarrow> bool" where
  "truthy_int x = (case x of None \<Rightarrow> False | Some i \<Rightarrow> i \<noteq> 0)"

definition generate_random_passwords ::
  "env \<Rightarrow> MassPassGen \<Rightarrow> int \<Rightarrow> int option \<Rightarrow> world \<Rightarrow> ((exn + string list) \<times> world) option"
where
  "generate_random_passwords e self count len w =
     (case (if truthy_int len then Inr (the len, w)
            else randint e (min_len self) (max_len self) w) of
        Inl x \<Rightarrow> Some (Inl x, w)
      | Inr (target_len, w) \<Rightarrow>
          (case sampling_loop e count target_len []
                  (print (''[*] Generating '' @ str_int count @ '' random passwords...'') w) of
             None \<Rightarrow> None
           | Some (passwords, w) \<Rightarrow> Some (Inr passwords, w)))"

text \<open>
  \<^verbatim>\<open>save_to_file\<close>. \<open>write_loop\<close> is the \<^verbatim>\<open>for\<close> loop: it returns the cause of the call of
  \<^verbatim>\<open>f.write\<close> that raised, if one did, and the text handed to \<^verbatim>\<open>f.write\<close> until then, the
  text of the call that raised included. \<open>close_file\<close> is the implicit close of the
  \<^verbatim>\<open>with\<close> block, which runs whether or not the loop raised and flushes the buffer; there
  is nothing to flush when no text was handed over. An exception of the close replaces
  the one of the loop. Whatever is raised is caught by the method's \<^verbatim>\<open>except\<close>, which
  prints the cause and returns \<^verbatim>\<open>False\<close>. \<^verbatim>\<open>open(filename, 'w')\<close> empties the file, so after
  it the file holds what was flushed and nothing else.
\<close>

definition newline :: char where
  "newline = CHR 0x0A"

fun write_loop :: "env \<Rightarrow> nat \<Rightarrow> string list \<Rightarrow> string \<Rightarrow> string option \<times> string" where
  "write_loop e k [] text = (None, text)"
| "write_loop e k (pwd # rest) text =
     (case write_error e k of
        Some cause \<Rightarrow> (Some cause, text @ pwd @ [newline])
      | None \<Rightarrow> write_loop e (Suc k) rest (text @ pwd @ [newline]))"

definition close_file :: "env \<Rightarrow> string \<Rightarrow> string option" where
  "close_file e text = (if text = [] then None else flush_error e)"

definition save_to_file :: "env \<Rightarrow> string list \<Rightarrow> string \<Rightarrow> world \<Rightarrow> bool \<times> world" where
  "save_to_file e passwords filename w =
     (case open_error e filename of
        Some cause \<Rightarrow> (False, print (''[-] Error saving file: '' @ cause) w)
      | None \<Rightarrow>
          (case write_loop e 0 passwords [] of
             (raised, text) \<Rightarrow>
               (case (case close_file e text of Some cause \<Rightarrow> Some cause | None \<Rightarrow> raised) of
                  Some cause \<Rightarrow>
                    (False, print (''[-] Error saving file: '' @ cause)
                              (w\<lparr>files := (files w)(filename \<mapsto> take (flushed e) text)\<rparr>))
                | None \<Rightarrow>
                    (True, print (''[+] Successfully saved '' @ str_int (int (length passwords))
                                  @ '' passwords to '' @ filename)
                             (w\<lparr>files := (files w)(filename \<mapsto> text)\<rparr>)))))"

subsection \<open>\<^verbatim>\<open>main\<close>\<close>

text \<open>
  \<open>args\<close> is the namespace \<^verbatim>\<open>parse_args\<close> returns. \<^verbatim>\<open>main\<close> ends by \<^verbatim>\<open>sys.exit\<close>, by
  returning, or by an exception that leaves it; when the sampler never returns, neither
  does \<^verbatim>\<open>main\<close>.
\<close>

record args =
  arg_count :: int
  arg_output :: string
  arg_length :: "int option"
  arg_min :: int
  arg_max :: int
  arg_pattern :: "string option"

datatype outcome = Exit int | Return | Raise exn

definition banner :: "world \<Rightarrow> world" where
  "banner w = w\<lparr>stdout := stdout w @ [Banner]\<rparr>"

text \<open>\<^verbatim>\<open>input(prompt)\<close> writes the prompt and reads a line, \<open>EOFError\<close> when there is none.\<close>

definition input :: "env \<Rightarrow> string \<Rightarrow> world \<Rightarrow> (exn + string) \<times> world" where
  "input e prompt w =
     (case stdin_line e of
        None \<Rightarrow> (Inl EOFError, print prompt w)
      | Some line \<Rightarrow> (Inr line, print prompt w))"

text \<open>\<^verbatim>\<open>s.lower()\<close> on the ASCII letters.\<close>

definition lower :: "string \<Rightarrow> string" where
  "lower s =
     map (\<lambda>c. let n = (of_char c :: nat) in if 65 \<le> n \<and> n \<le> 90 then char_of (n + 32) else c) s"

text \<open>\<^verbatim>\<open>if args.pattern:\<close> holds for a string that is not empty.\<close>

definition truthy_str :: "string option \<Rightarrow> bool" where
  "truthy_str x = (case x of None \<Rightarrow> False | Some s \<Rightarrow> s \<noteq> [])"

text \<open>The three checks under \<^verbatim>\<open># Validation\<close>: the message of the first one that fails.\<close>

definition validation :: "args \<Rightarrow> string option" where
  "validation a =
     (if arg_min a < 1 \<or> arg_max a > 128
      then Some ''[-] Password length must be between 1 and 128''
      else if arg_min a > arg_max a
      then Some ''[-] Minimum length cannot be greater than maximum length''
      else if arg_count a < 1
      then Some ''[-] Count must be at least 1''
      else None)"

text \<open>The question asked above ten million passwords: the outcome when \<^verbatim>\<open>main\<close> ends there.\<close>

definition confirmation :: "env \<Rightarrow> args \<Rightarrow> world \<Rightarrow> outcome option \<times> world" where
  "confirmation e a w =
     (if arg_count a > 10000000 then
        (case input e (''[!] Warning: Generating '' @ str_int (arg_count a)
                       @ '' passwords may take significant time and memory. Continue? (y/n): '') w of
           (Inl x, w) \<Rightarrow> (Some (Raise x), w)
         | (Inr response, w) \<Rightarrow>
             (if lower response \<noteq> ''y'' then (Some (Exit 0), print ''[*] Aborted'' w)
              else (None, w)))
      else (None, w))"

definition main :: "env \<Rightarrow> args \<Rightarrow> world \<Rightarrow> (outcome \<times> world) option" where
  "main e a w =
     (let w = banner w in
      case validation a of
        Some message \<Rightarrow> Some (Exit 1, print message w)
      | None \<Rightarrow>
          (case confirmation e a w of
             (Some ended, w) \<Rightarrow> Some (ended, w)
           | (None, w) \<Rightarrow>
               (let gen = MassPassGen_init (arg_min a) (arg_max a) in
                case (if truthy_str (arg_pattern a)
                      then (case generate_pattern_passwords e gen (the (arg_pattern a))
                                   (arg_count a) w of
                              (passwords, w) \<Rightarrow> Some (Inr passwords, w))
                      else generate_random_passwords e gen (arg_count a) (arg_length a) w) of
                  None \<Rightarrow> None
                | Some (Inl x, w) \<Rightarrow> Some (Raise x, w)
                | Some (Inr passwords, w) \<Rightarrow>
                    (let file = (if suffix ''.txt'' (arg_output a) then arg_output a
                                 else arg_output a @ ''.txt'');
                         (saved, w) = save_to_file e passwords file w;
                         w = print (newline # ''[+] Generation complete!'') w;
                         w = print (''[+] Total passwords: '' @ str_int (int (length passwords))) w;
                         w = print (''[+] File: '' @ file) w
                     in Some (Return, w)))))"

subsection \<open>What the specification compares the program with\<close>

text \<open>
  The expansion as the specification words it: one pass over the pattern in which every
  recognised token \<open>{k}\<close> is replaced by the text \<open>\<sigma>\<close> gives for \<open>k\<close>, and every other
  character is copied.
\<close>

fun substitute :: "(char \<Rightarrow> string option) \<Rightarrow> string \<Rightarrow> string" where
  "substitute \<sigma> (x # k # y # rest) =
     (if x = CHR ''{'' \<and> y = CHR ''}'' \<and> \<sigma> k \<noteq> None
      then the (\<sigma> k) @ substitute \<sigma> rest
      else x # substitute \<sigma> (k # y # rest))"
| "substitute \<sigma> s = s"

definition expand_spec :: "string \<Rightarrow> string \<Rightarrow> char \<Rightarrow> char \<Rightarrow> char \<Rightarrow> string" where
  "expand_spec pattern n a d s =
     substitute [CHR ''n'' \<mapsto> n, CHR ''a'' \<mapsto> [a], CHR ''d'' \<mapsto> [d], CHR ''s'' \<mapsto> [s]] pattern"

text \<open>
  Reading a text back line by line: a line ends at its terminator, and what follows the
  last terminator is a line only when it is not empty.
\<close>

fun lines_from :: "string \<Rightarrow> string \<Rightarrow> string list" where
  "lines_from line [] = (if line = [] then [] else [line])"
| "lines_from line (c # cs) =
     (if c = newline then line # lines_from [] cs else lines_from (line @ [c]) cs)"

definition read_lines :: "string \<Rightarrow> string list" where
  "read_lines text = lines_from [] text"

text \<open>The value of a decimal numeral, for comparison with \<^verbatim>\<open>str\<close>.\<close>

definition decimal_value :: "string \<Rightarrow> nat" where
  "decimal_value s = foldl (\<lambda>v c. 10 * v + (of_char c - 48)) 0 s"

text \<open>The three characters an expansion draws, by the position of the draw.\<close>

definition letter_at :: "env \<Rightarrow> nat \<Rightarrow> char" where
  "letter_at e p = ascii_letters ! (tape e p mod length ascii_letters)"

definition digit_at :: "env \<Rightarrow> nat \<Rightarrow> char" where
  "digit_at e p = digits ! (tape e p mod length digits)"

definition symbol_at :: "env \<Rightarrow> nat \<Rightarrow> char" where
  "symbol_at e p = punctuation ! (tape e p mod length punctuation)"

text \<open>
  The text of a file that holds the given entries, each followed by one line terminator;
  and the first call of \<^verbatim>\<open>f.write\<close> that fails among the \<open>n\<close> calls from the \<open>k\<close>-th on.
\<close>

definition joined_lines :: "string list \<Rightarrow> string" where
  "joined_lines ps = concat (map (\<lambda>p. p @ [newline]) ps)"

definition first_failure :: "env \<Rightarrow> nat \<Rightarrow> nat \<Rightarrow> nat option" where
  "first_failure e k n = find (\<lambda>j. write_error e j \<noteq> None) [k..<k + n]"

text \<open>
  The \<open>j\<close>-th string a sampling loop draws when it starts at position \<open>p\<close> of the generator
  with the target length \<open>t\<close>.
\<close>

definition sampled :: "env \<Rightarrow> int \<Rightarrow> nat \<Rightarrow> nat \<Rightarrow> string" where
  "sampled e t p j =
     map (\<lambda>i. charset ! (tape e (p + j * nat t + i) mod length charset)) [0..<nat t]"

text \<open>
  The state of that loop after \<open>j\<close> iterations: the generator has advanced by \<open>j\<close> strings
  and the set holds, once each, the strings drawn so far.
\<close>

definition loop_inv :: "env \<Rightarrow> int \<Rightarrow> nat \<Rightarrow> nat \<Rightarrow> string list \<Rightarrow> world \<Rightarrow> bool" where
  "loop_inv e t p j ps w \<longleftrightarrow>
     rng_pos w = p + j * nat t \<and> distinct ps \<and> set ps = sampled e t p ` {..<j}"

text \<open>A recognised token at the head of a text.\<close>

fun token_at :: "(char \<Rightarrow> string option) \<Rightarrow> string \<Rightarrow> bool" where
  "token_at \<sigma> (x # k # y # rest) \<longleftrightarrow> x = CHR ''{'' \<and> y = CHR ''}'' \<and> \<sigma> k \<noteq> None"
| "token_at \<sigma> s \<longleftrightarrow> False"

subsection \<open>Concrete environments\<close>

text \<open>
  A generator that delivers 3, 4, 5, ...; a destination that accepts everything; one that
  takes five characters, every call of \<^verbatim>\<open>f.write\<close> returning and the closing flush
  failing; one where the second call of \<^verbatim>\<open>f.write\<close> fails after six characters have
  reached the file; and one that cannot be opened.
\<close>

definition env_ok :: env where
  "env_ok = \<lparr>tape = (\<lambda>n. n + 3), open_error = (\<lambda>p. None), write_error = (\<lambda>k. None),
             flush_error = None, flushed = 0, stdin_line = None\<rparr>"

definition env_limit :: env where
  "env_limit = env_ok\<lparr>flush_error := Some ''File too large'', flushed := 5\<rparr>"

definition env_full :: env where
  "env_full = env_ok\<lparr>write_error := (\<lambda>k. if k = 1 then Some ''No space left on device'' else None),
                     flushed := 6\<rparr>"

definition env_denied :: env where
  "env_denied = env_ok\<lparr>open_error := (\<lambda>p. Some ''Permission denied'')\<rparr>"

definition world0 :: world where
  "world0 = \<lparr>rng_pos = 0, stdout = [], files = Map.empty\<rparr>"

definition world_old :: world where
  "world_old = \<lparr>rng_pos = 0, stdout = [], files = [''out.txt'' \<mapsto> ''old'']\<rparr>"

section \<open>Properties\<close>

subsection \<open>Strings\<close>

lemma replace_Nil [simp]: "old \<noteq> [] \<Longrightarrow> replace [] old new = []"
  by (simp add: replace.simps)

lemma replace_absent: "old \<noteq> [] \<Longrightarrow> hd old \<notin> set s \<Longrightarrow> replace s old new = s"
proof (induction s)
  case Nil
  then show ?case by simp
next
  case (Cons c s)
  from Cons.prems have "\<not> prefix old (c # s)"
    by (cases old) (auto simp: prefix_def)
  with Cons show ?case
    by (subst replace.simps) simp
qed

lemma replace_skip:
  "old \<noteq> [] \<Longrightarrow> hd old \<notin> set pre \<Longrightarrow> replace (pre @ s) old new = pre @ replace s old new"
proof (induction pre)
  case Nil
  then show ?case by simp
next
  case (Cons c pre)
  from Cons.prems have "\<not> prefix old (c # pre @ s)"
    by (cases old) (auto simp: prefix_def)
  with Cons show ?case
    by (subst replace.simps) simp
qed

lemma replace_here: "old \<noteq> [] \<Longrightarrow> replace (old @ s) old new = new @ replace s old new"
  by (subst replace.simps) simp

lemma set_str_nat: "set (str_nat n) \<subseteq> set digits"
proof (induction n rule: str_nat.induct)
  case (1 n)
  have d: "\<And>k. k < 10 \<Longrightarrow> digits ! k \<in> set digits"
    by (rule nth_mem) (simp add: digits_def)
  show ?case
  proof (cases "n < 10")
    case True
    then show ?thesis using d by (subst str_nat.simps) simp
  next
    case False
    with 1 d [of "n mod 10"] show ?thesis
      by (subst str_nat.simps) simp
  qed
qed

lemma str_nat_not_Nil: "str_nat n \<noteq> []"
  by (subst str_nat.simps) simp

lemma digit_value: "k < 10 \<Longrightarrow> of_char (digits ! k) - 48 = k"
proof -
  assume "k < 10"
  then have "k \<in> {0,1,2,3,4,5,6,7,8,9}" by auto
  then show ?thesis by (auto simp: digits_def)
qed

lemma decimal_value_snoc: "decimal_value (s @ [c]) = 10 * decimal_value s + (of_char c - 48)"
  by (simp add: decimal_value_def)

lemma decimal_value_str_nat: "decimal_value (str_nat n) = n"
proof (induction n rule: str_nat.induct)
  case (1 n)
  show ?case
  proof (cases "n < 10")
    case True
    then show ?thesis
      by (subst str_nat.simps) (simp add: decimal_value_def digit_value)
  next
    case False
    with 1 show ?thesis
      by (subst str_nat.simps) (simp add: decimal_value_snoc digit_value)
  qed
qed

lemma brace_not_digit: "CHR ''{'' \<notin> set digits" "CHR ''}'' \<notin> set digits"
  by (simp_all add: digits_def)

lemma str_int_no_brace: "CHR ''{'' \<notin> set (str_int i)" "CHR ''}'' \<notin> set (str_int i)"
  using set_str_nat brace_not_digit by (auto simp: str_int_def)

lemma str_int_not_Nil: "str_int i \<noteq> []"
  by (simp add: str_int_def str_nat_not_Nil)

subsection \<open>The pattern expander\<close>

lemma apply_pattern_eq:
  "apply_pattern e pattern seed w =
     (replace (replace (replace (replace pattern ''{n}'' (str_int seed))
        ''{a}'' [letter_at e (rng_pos w)])
        ''{d}'' [digit_at e (Suc (rng_pos w))])
        ''{s}'' [symbol_at e (Suc (Suc (rng_pos w)))],
      w\<lparr>rng_pos := rng_pos w + 3\<rparr>)"
  by (simp add: apply_pattern_def random_choice_def letter_at_def digit_at_def symbol_at_def)

subsection \<open>The writer\<close>

lemma joined_lines_simps [simp]:
  "joined_lines [] = []"
  "joined_lines (p # ps) = p @ newline # joined_lines ps"
  by (simp_all add: joined_lines_def)

lemma first_failure_simps:
  "first_failure e k 0 = None"
  "first_failure e k (Suc n) = (if write_error e k \<noteq> None then Some k else first_failure e (Suc k) n)"
proof -
  have "[k..<k + Suc n] = k # [Suc k..<Suc k + n]"
    by (simp add: upt_conv_Cons)
  then show "first_failure e k (Suc n) =
      (if write_error e k \<noteq> None then Some k else first_failure e (Suc k) n)"
    by (simp add: first_failure_def)
qed (simp add: first_failure_def)

lemma first_failure_bounds:
  "first_failure e k n = Some j \<Longrightarrow> k \<le> j \<and> j < k + n \<and> write_error e j \<noteq> None"
  unfolding first_failure_def by (auto simp: find_Some_iff)

lemma first_failure_None:
  "first_failure e k n = None \<longleftrightarrow> (\<forall>j. k \<le> j \<and> j < k + n \<longrightarrow> write_error e j = None)"
  unfolding first_failure_def by (auto simp: find_None_iff)

lemma joined_lines_append: "joined_lines (xs @ ys) = joined_lines xs @ joined_lines ys"
  by (simp add: joined_lines_def)

lemma joined_lines_snoc: "joined_lines (xs @ [p]) = joined_lines xs @ p @ [newline]"
  by (simp add: joined_lines_def)

lemma joined_lines_Nil_iff: "joined_lines ps = [] \<longleftrightarrow> ps = []"
  by (cases ps) simp_all

lemma joined_lines_take_prefix: "prefix (take m (joined_lines (take n ps))) (joined_lines ps)"
proof -
  have "joined_lines ps = joined_lines (take n ps) @ joined_lines (drop n ps)"
    by (simp only: joined_lines_append [symmetric] append_take_drop_id)
  then have "prefix (joined_lines (take n ps)) (joined_lines ps)"
    by (metis prefixI)
  moreover have "prefix (take m (joined_lines (take n ps))) (joined_lines (take n ps))"
    by (rule take_is_prefix)
  ultimately show ?thesis
    by (rule prefix_order.trans [rotated])
qed

lemma write_loop_eq:
  "write_loop e k ps acc =
     (case first_failure e k (length ps) of
        None \<Rightarrow> (None, acc @ joined_lines ps)
      | Some j \<Rightarrow> (write_error e j, acc @ joined_lines (take (Suc (j - k)) ps)))"
proof (induction ps arbitrary: k acc)
  case Nil
  then show ?case by (simp add: first_failure_simps)
next
  case (Cons p ps)
  show ?case
  proof (cases "write_error e k")
    case (Some cause)
    then show ?thesis by (simp add: first_failure_simps)
  next
    case None
    show ?thesis
    proof (cases "first_failure e (Suc k) (length ps)")
      case n: None
      with None Cons.IH [of "Suc k" "acc @ p @ [newline]"] show ?thesis
        by (simp add: first_failure_simps)
    next
      case (Some j)
      then have "Suc k \<le> j" by (auto dest: first_failure_bounds)
      then have "Suc (j - k) = Suc (Suc (j - Suc k))" by simp
      with None Some Cons.IH [of "Suc k" "acc @ p @ [newline]"] show ?thesis
        by (simp add: first_failure_simps)
    qed
  qed
qed

text \<open>The text handed to \<^verbatim>\<open>f.write\<close> and the exception of the loop, by the first failure.\<close>

lemma write_loop_ok:
  assumes "\<forall>k. k < length ps \<longrightarrow> write_error e k = None"
  shows "write_loop e 0 ps [] = (None, joined_lines ps)"
proof -
  from assms have "first_failure e 0 (length ps) = None"
    by (simp add: first_failure_None)
  then show ?thesis by (simp add: write_loop_eq)
qed

lemma write_loop_raises:
  assumes "k < length ps" and "write_error e k = Some cause"
    and "\<forall>j. j < k \<longrightarrow> write_error e j = None"
  shows "write_loop e 0 ps [] = (Some cause, joined_lines (take (Suc k) ps))"
proof -
  have "first_failure e 0 (length ps) = Some k"
    unfolding first_failure_def using assms by (auto simp: find_Some_iff intro!: exI [of _ k])
  with assms(2) show ?thesis by (simp add: write_loop_eq)
qed

lemma write_loop_cases:
  obtains (ok) "\<forall>k. k < length ps \<longrightarrow> write_error e k = None"
      and "write_loop e 0 ps [] = (None, joined_lines ps)"
    | (raises) k cause where "k < length ps" and "write_error e k = Some cause"
      and "\<forall>j. j < k \<longrightarrow> write_error e j = None"
      and "write_loop e 0 ps [] = (Some cause, joined_lines (take (Suc k) ps))"
proof (cases "first_failure e 0 (length ps)")
  case None
  then have a: "\<forall>k. k < length ps \<longrightarrow> write_error e k = None"
    by (simp add: first_failure_None)
  with ok write_loop_ok show ?thesis by blast
next
  case (Some k)
  then have k: "k < length ps" "write_error e k \<noteq> None"
    by (auto dest: first_failure_bounds)
  then obtain cause where c: "write_error e k = Some cause" by blast
  from Some have j: "\<forall>j. j < k \<longrightarrow> write_error e j = None"
    unfolding first_failure_def by (auto simp: find_Some_iff)
  from raises [OF k(1) c j] write_loop_raises [OF k(1) c j] show ?thesis by blast
qed

lemma save_to_file_open_fails:
  assumes "open_error e f = Some cause"
  shows "save_to_file e ps f w = (False, print (''[-] Error saving file: '' @ cause) w)"
  using assms by (simp add: save_to_file_def)

lemma save_to_file_succeeds:
  assumes "open_error e f = None" and "\<forall>k. k < length ps \<longrightarrow> write_error e k = None"
    and "ps \<noteq> [] \<longrightarrow> flush_error e = None"
  shows "save_to_file e ps f w =
     (True, print (''[+] Successfully saved '' @ str_int (int (length ps)) @ '' passwords to '' @ f)
              (w\<lparr>files := (files w)(f \<mapsto> joined_lines ps)\<rparr>))"
proof -
  from assms(3) have "close_file e (joined_lines ps) = None"
    by (simp add: close_file_def joined_lines_Nil_iff)
  with assms(1) write_loop_ok [OF assms(2)] show ?thesis
    by (simp add: save_to_file_def)
qed

lemma save_to_file_flush_fails:
  assumes "open_error e f = None" and "\<forall>k. k < length ps \<longrightarrow> write_error e k = None"
    and "ps \<noteq> []" and "flush_error e = Some cause"
  shows "save_to_file e ps f w =
     (False, print (''[-] Error saving file: '' @ cause)
               (w\<lparr>files := (files w)(f \<mapsto> take (flushed e) (joined_lines ps))\<rparr>))"
proof -
  from assms(3,4) have "close_file e (joined_lines ps) = Some cause"
    by (simp add: close_file_def joined_lines_Nil_iff)
  with assms(1) write_loop_ok [OF assms(2)] show ?thesis
    by (simp add: save_to_file_def)
qed

lemma save_to_file_write_fails:
  assumes "open_error e f = None" and "k < length ps" and "write_error e k = Some cause"
    and "\<forall>j. j < k \<longrightarrow> write_error e j = None"
  shows "save_to_file e ps f w =
     (False, print (''[-] Error saving file: ''
                    @ (case flush_error e of Some later \<Rightarrow> later | None \<Rightarrow> cause))
               (w\<lparr>files := (files w)(f \<mapsto> take (flushed e) (joined_lines (take (Suc k) ps)))\<rparr>))"
proof -
  from assms(2) have "take (Suc k) ps \<noteq> []" by auto
  then have "close_file e (joined_lines (take (Suc k) ps)) = flush_error e"
    by (simp add: close_file_def joined_lines_Nil_iff del: take_Suc_Cons)
  with assms(1) write_loop_raises [OF assms(2,3,4)] show ?thesis
    by (simp add: save_to_file_def split: option.splits)
qed

lemma save_to_file_cases:
  obtains (unopened) cause where "open_error e f = Some cause"
      and "save_to_file e ps f w = (False, print (''[-] Error saving file: '' @ cause) w)"
    | (written) "open_error e f = None" and "\<forall>k. k < length ps \<longrightarrow> write_error e k = None"
      and "ps \<noteq> [] \<longrightarrow> flush_error e = None"
      and "save_to_file e ps f w =
        (True, print (''[+] Successfully saved '' @ str_int (int (length ps)) @ '' passwords to '' @ f)
                 (w\<lparr>files := (files w)(f \<mapsto> joined_lines ps)\<rparr>))"
    | (failed) cause n where "open_error e f = None" and "n \<le> length ps"
      and "flush_error e = Some cause \<or> (\<exists>k. k < length ps \<and> write_error e k = Some cause)"
      and "\<not> ((\<forall>k. k < length ps \<longrightarrow> write_error e k = None) \<and> (ps \<noteq> [] \<longrightarrow> flush_error e = None))"
      and "save_to_file e ps f w =
        (False, print (''[-] Error saving file: '' @ cause)
                  (w\<lparr>files := (files w)(f \<mapsto> take (flushed e) (joined_lines (take n ps)))\<rparr>))"
proof (cases "open_error e f")
  case (Some cause)
  from unopened [OF Some save_to_file_open_fails [OF Some]] show ?thesis .
next
  case None
  show ?thesis
  proof (cases rule: write_loop_cases [of ps e])
    case ok
    show ?thesis
    proof (cases "ps \<noteq> [] \<longrightarrow> flush_error e = None")
      case True
      from written [OF None ok(1) True save_to_file_succeeds [OF None ok(1) True]] show ?thesis .
    next
      case False
      then obtain cause where c: "ps \<noteq> []" "flush_error e = Some cause" by auto
      have "length ps \<le> length ps" by simp
      moreover have "flush_error e = Some cause \<or> (\<exists>k. k < length ps \<and> write_error e k = Some cause)"
        using c by simp
      moreover have "\<not> ((\<forall>k. k < length ps \<longrightarrow> write_error e k = None) \<and>
          (ps \<noteq> [] \<longrightarrow> flush_error e = None))"
        using False by simp
      moreover have "save_to_file e ps f w =
        (False, print (''[-] Error saving file: '' @ cause)
                  (w\<lparr>files := (files w)(f \<mapsto> take (flushed e) (joined_lines (take (length ps) ps)))\<rparr>))"
        using save_to_file_flush_fails [OF None ok(1) c] by simp
      ultimately show ?thesis
        using failed [OF None] by blast
    qed
  next
    case (raises k cause)
    let ?c = "case flush_error e of Some later \<Rightarrow> later | None \<Rightarrow> cause"
    have "Suc k \<le> length ps" using raises(1) by simp
    moreover have "flush_error e = Some ?c \<or> (\<exists>k. k < length ps \<and> write_error e k = Some ?c)"
      using raises(1,2) by (cases "flush_error e") auto
    moreover have "\<not> ((\<forall>k. k < length ps \<longrightarrow> write_error e k = None) \<and>
          (ps \<noteq> [] \<longrightarrow> flush_error e = None))"
      using raises(1,2) by auto
    moreover note save_to_file_write_fails [OF None raises(1,2,3), of w]
    ultimately show ?thesis
      using failed [OF None] by blast
  qed
qed

lemma lines_from_joined:
  "\<forall>p\<in>set ps. newline \<notin> set p \<Longrightarrow> lines_from [] (joined_lines ps) = ps"
proof (induction ps)
  case Nil
  then show ?case by simp
next
  case (Cons p ps)
  have "\<And>acc rest. newline \<notin> set p \<Longrightarrow> lines_from acc (p @ newline # rest) = (acc @ p) # lines_from [] rest"
    by (induction p arbitrary: acc) auto
  with Cons show ?case by simp
qed

subsection \<open>The concrete environments\<close>

lemma env_simps [simp]:
  "open_error env_ok = (\<lambda>p. None)" "write_error env_ok = (\<lambda>k. None)" "tape env_ok = (\<lambda>n. n + 3)"
  "flush_error env_ok = None" "stdin_line env_ok = None"
  "open_error env_limit = (\<lambda>p. None)" "write_error env_limit = (\<lambda>k. None)"
  "flush_error env_limit = Some ''File too large''" "flushed env_limit = 5"
  "open_error env_full = (\<lambda>p. None)"
  "write_error env_full = (\<lambda>k. if k = 1 then Some ''No space left on device'' else None)"
  "flush_error env_full = None" "flushed env_full = 6"
  "tape env_full = (\<lambda>n. n + 3)"
  "open_error env_denied = (\<lambda>p. Some ''Permission denied'')"
  "write_error env_denied = (\<lambda>k. None)"
  "tape env_denied = (\<lambda>n. n + 3)"
  by (simp_all add: env_ok_def env_limit_def env_full_def env_denied_def)

lemma world_simps [simp]:
  "rng_pos world0 = 0" "stdout world0 = []" "files world0 = Map.empty"
  "rng_pos world_old = 0" "stdout world_old = []" "files world_old = [''out.txt'' \<mapsto> ''old'']"
  by (simp_all add: world0_def world_old_def)

subsection \<open>Claims about the writer\<close>






subsection \<open>Claims about \<^verbatim>\<open>main\<close>\<close>

lemma main_rejected:
  assumes "validation a = Some message"
  shows "main e a w = Some (Exit 1, print message (banner w))"
  using assms by (simp add: main_def)

lemma confirmation_not_Exit_1: "fst (confirmation e a w) \<noteq> Some (Exit 1)"
  by (simp add: confirmation_def input_def split: option.splits)

lemma main_accepted:
  assumes "validation a = None"
  shows "main e a w \<noteq> Some (Exit 1, w')"
proof -
  obtain c w1 where c: "confirmation e a (banner w) = (c, w1)"
    by (cases "confirmation e a (banner w)")
  with confirmation_not_Exit_1 [of e a "banner w"] have "c \<noteq> Some (Exit 1)"
    by simp
  with assms c show ?thesis
    by (auto simp: main_def Let_def split: option.splits prod.splits sum.splits if_splits)
qed

text \<open>
  C7. With the bounds 1 and 128 the validation fails on the count only, and passes when the
  count is at least 1; a minimum of 129 is rejected whatever the maximum, a maximum of 0
  whatever the minimum. The validation rejects exactly the requests with a bad count or
  bad bounds, and on a rejection \<^verbatim>\<open>main\<close> exits with status 1 having printed the banner and
  the message only: no random value was drawn and no file was touched. A request that
  passes is never ended with status 1.
\<close>

theorem validation_before_generation:
  "(arg_min a = 1 \<and> arg_max a = 128 \<longrightarrow>
      validation a = (if arg_count a < 1 then Some ''[-] Count must be at least 1'' else None)) \<and>
   (arg_min a = 129 \<longrightarrow> validation a \<noteq> None) \<and>
   (arg_max a = 0 \<longrightarrow> validation a \<noteq> None) \<and>
   (validation a \<noteq> None \<longleftrightarrow>
      arg_min a < 1 \<or> arg_max a > 128 \<or> arg_min a > arg_max a \<or> arg_count a < 1) \<and>
   (validation a \<noteq> None \<longrightarrow>
      (\<exists>w'. main e a w = Some (Exit 1, w') \<and> rng_pos w' = rng_pos w \<and> files w' = files w \<and>
            stdout w' = stdout w @ [Banner, Text (the (validation a))])) \<and>
   (validation a = None \<longrightarrow> (\<forall>w'. main e a w \<noteq> Some (Exit 1, w')))"
proof (intro conjI impI)
  assume "validation a \<noteq> None"
  then obtain message where m: "validation a = Some message" by blast
  have "rng_pos (print message (banner w)) = rng_pos w"
    and "files (print message (banner w)) = files w"
    and "stdout (print message (banner w)) = stdout w @ [Banner, Text message]"
    by (simp_all add: print_def banner_def)
  with m main_rejected [OF m, of e w]
  show "\<exists>w'. main e a w = Some (Exit 1, w') \<and> rng_pos w' = rng_pos w \<and> files w' = files w \<and>
            stdout w' = stdout w @ [Banner, Text (the (validation a))]"
    by simp
next
  assume "validation a = None"
  then show "\<forall>w'. main e a w \<noteq> Some (Exit 1, w')"
    using main_accepted by blast
qed (auto simp: validation_def)

theorem validation_before_generation_witness:
  "validation \<lparr>arg_count = 1, arg_output = ''out'', arg_length = None, arg_min = 1, arg_max = 128,
      arg_pattern = None\<rparr> = None \<and>
   (\<forall>w'. main env_ok \<lparr>arg_count = 1, arg_output = ''out'', arg_length = None, arg_min = 1,
      arg_max = 128, arg_pattern = None\<rparr> world0 \<noteq> Some (Exit 1, w')) \<and>
   validation \<lparr>arg_count = 1, arg_output = ''out'', arg_length = None, arg_min = 129, arg_max = 200,
      arg_pattern = None\<rparr> \<noteq> None \<and>
   validation \<lparr>arg_count = 1, arg_output = ''out'', arg_length = None, arg_min = 0, arg_max = 0,
      arg_pattern = None\<rparr> \<noteq> None \<and>
   (\<exists>w'. main env_ok \<lparr>arg_count = 1, arg_output = ''out'', arg_length = None, arg_min = 129,
      arg_max = 200, arg_pattern = None\<rparr> world0 = Some (Exit 1, w') \<and> rng_pos w' = 0 \<and>
      files w' = Map.empty \<and>
      stdout w' = [Banner, Text ''[-] Password length must be between 1 and 128''])"
proof -
  let ?a = "\<lparr>arg_count = 1, arg_output = ''out'', arg_length = None, arg_min = 1, arg_max = 128,
      arg_pattern = None\<rparr>"
  let ?b = "\<lparr>arg_count = 1, arg_output = ''out'', arg_length = None, arg_min = 129, arg_max = 200,
      arg_pattern = None\<rparr>"
  let ?c = "\<lparr>arg_count = 1, arg_output = ''out'', arg_length = None, arg_min = 0, arg_max = 0,
      arg_pattern = None\<rparr>"
  have a: "validation ?a = None"
    using validation_before_generation [of ?a env_ok world0] by simp
  then have a': "\<forall>w'. main env_ok ?a world0 \<noteq> Some (Exit 1, w')"
    using validation_before_generation [of ?a env_ok world0] by blast
  have b: "validation ?b \<noteq> None"
    using validation_before_generation [of ?b env_ok world0] by simp
  have c: "validation ?c \<noteq> None"
    using validation_before_generation [of ?c env_ok world0] by simp
  have m: "the (validation ?b) = ''[-] Password length must be between 1 and 128''"
    by (simp add: validation_def)
  from b have "\<exists>w'. main env_ok ?b world0 = Some (Exit 1, w') \<and> rng_pos w' = rng_pos world0 \<and>
      files w' = files world0 \<and> stdout w' = stdout world0 @ [Banner, Text (the (validation ?b))]"
    using validation_before_generation [of ?b env_ok world0] by blast
  then have d: "\<exists>w'. main env_ok ?b world0 = Some (Exit 1, w') \<and> rng_pos w' = 0 \<and>
      files w' = Map.empty \<and>
      stdout w' = [Banner, Text ''[-] Password length must be between 1 and 128'']"
    by (simp add: m)
  from a a' b c d show ?thesis by (simp only: simp_thms)
qed

lemma str_int_0: "str_int 0 = ''0''"
  by (simp add: str_int_def str_nat.simps digits_def)

lemma replace_fifteen:
  "replace ''{n}{n}{n}{n}{n}{n}{n}{n}{n}{n}{n}{n}{n}{n}{n}'' ''{n}'' ''0'' = ''000000000000000''"
  by (simp add: replace.simps)

lemma apply_pattern_fifteen:
  "apply_pattern e ''{n}{n}{n}{n}{n}{n}{n}{n}{n}{n}{n}{n}{n}{n}{n}'' 0 w =
     (''000000000000000'', w\<lparr>rng_pos := rng_pos w + 3\<rparr>)"
  by (simp add: apply_pattern_eq str_int_0 replace_fifteen replace_absent)

lemma generate_fifteen:
  "generate_pattern_passwords e (MassPassGen_init 1 5) ''{n}{n}{n}{n}{n}{n}{n}{n}{n}{n}{n}{n}{n}{n}{n}'' 1 w =
     ([], (print ''[*] Generating pattern-based passwords...'' w)
            \<lparr>rng_pos := rng_pos w + 3\<rparr>)"
proof -
  have "[0..(1::int) - 1] = [0]" by (simp add: upto.simps)
  then show ?thesis
    by (simp add: generate_pattern_passwords_def apply_pattern_fifteen MassPassGen_init_def print_def)
qed

lemma save_nothing:
  assumes "open_error e f = None"
  shows "save_to_file e [] f w =
    (True, print (''[+] Successfully saved '' @ str_int 0 @ '' passwords to '' @ f)
             (w\<lparr>files := (files w)(f \<mapsto> [])\<rparr>))"
  using save_to_file_succeeds [of e f "[]" w] assms by simp



subsection \<open>The pattern branch\<close>

lemma apply_pattern_rng:
  "fst (apply_pattern e pattern seed (w\<lparr>rng_pos := p\<rparr>)) = fst (apply_pattern e pattern seed (w'\<lparr>rng_pos := p\<rparr>))"
  "snd (apply_pattern e pattern seed w) = w\<lparr>rng_pos := rng_pos w + 3\<rparr>"
  by (simp_all add: apply_pattern_eq)

lemma upto_int_upt: "[0..int n - 1] = map int [0..<n]"
proof (induction n)
  case 0
  then show ?case by simp
next
  case (Suc n)
  have "[0..int (Suc n) - 1] = [0..int n]" by simp
  also have "\<dots> = [0..int n - 1] @ [int n]"
    by (simp add: upto_rec2)
  finally show ?case using Suc by simp
qed

lemma upto_as_upt: "[0..c - 1] = map int [0..<nat c]"
proof (cases "0 \<le> c")
  case True
  then have "[0..c - 1] = [0..int (nat c) - 1]" by simp
  also have "\<dots> = map int [0..<nat c]"
    by (rule upto_int_upt)
  finally show ?thesis .
next
  case False
  then show ?thesis by simp
qed

lemma pattern_loop_eq:
  "pattern_loop e self pattern (map int [k..<k + n]) acc w =
     (acc @ filter (\<lambda>pwd. min_len self \<le> int (length pwd) \<and> int (length pwd) \<le> max_len self)
              (map (\<lambda>i. fst (apply_pattern e pattern (int i) (w\<lparr>rng_pos := rng_pos w + 3 * (i - k)\<rparr>)))
                 [k..<k + n]),
      w\<lparr>rng_pos := rng_pos w + 3 * n\<rparr>)"
proof (induction n arbitrary: k acc w)
  case 0
  then show ?case by simp
next
  case (Suc n)
  have l: "[k..<k + Suc n] = k # [Suc k..<Suc k + n]"
    by (simp add: upt_conv_Cons)
  let ?w = "w\<lparr>rng_pos := rng_pos w + 3\<rparr>"
  have m: "map (\<lambda>i. fst (apply_pattern e pattern (int i) (?w\<lparr>rng_pos := rng_pos ?w + 3 * (i - Suc k)\<rparr>)))
             [Suc k..<Suc k + n] =
           map (\<lambda>i. fst (apply_pattern e pattern (int i) (w\<lparr>rng_pos := rng_pos w + 3 * (i - k)\<rparr>)))
             [Suc k..<Suc k + n]"
  proof (rule map_cong [OF refl])
    fix i assume "i \<in> set [Suc k..<Suc k + n]"
    then have a: "rng_pos ?w + 3 * (i - Suc k) = rng_pos w + 3 * (i - k)"
      by auto
    have b: "?w\<lparr>rng_pos := rng_pos w + 3 * (i - k)\<rparr> = w\<lparr>rng_pos := rng_pos w + 3 * (i - k)\<rparr>"
      by simp
    show "fst (apply_pattern e pattern (int i) (?w\<lparr>rng_pos := rng_pos ?w + 3 * (i - Suc k)\<rparr>)) =
        fst (apply_pattern e pattern (int i) (w\<lparr>rng_pos := rng_pos w + 3 * (i - k)\<rparr>))"
      by (simp only: a b)
  qed
  obtain pwd where p: "apply_pattern e pattern (int k) w = (pwd, ?w)"
    using apply_pattern_rng(2) [of e pattern "int k" w] by (cases "apply_pattern e pattern (int k) w") simp
  then have q: "fst (apply_pattern e pattern (int k) (w\<lparr>rng_pos := rng_pos w + 3 * (k - k)\<rparr>)) = pwd"
    by simp
  let ?ok = "\<lambda>pwd. min_len self \<le> int (length pwd) \<and> int (length pwd) \<le> max_len self"
  let ?acc = "if ?ok pwd then acc @ [pwd] else acc"
  have w: "?w\<lparr>rng_pos := rng_pos ?w + 3 * n\<rparr> = w\<lparr>rng_pos := rng_pos w + 3 * Suc n\<rparr>"
    by simp
  have "pattern_loop e self pattern (map int (k # [Suc k..<Suc k + n])) acc w =
        pattern_loop e self pattern (map int [Suc k..<Suc k + n]) ?acc ?w"
    by (simp add: p del: upt_Suc)
  also have "\<dots> = (?acc @ filter ?ok
       (map (\<lambda>i. fst (apply_pattern e pattern (int i) (w\<lparr>rng_pos := rng_pos w + 3 * (i - k)\<rparr>)))
          [Suc k..<Suc k + n]),
      w\<lparr>rng_pos := rng_pos w + 3 * Suc n\<rparr>)"
    by (simp only: Suc.IH [of "Suc k" ?acc ?w] m w)
  also have "?acc @ filter ?ok
       (map (\<lambda>i. fst (apply_pattern e pattern (int i) (w\<lparr>rng_pos := rng_pos w + 3 * (i - k)\<rparr>)))
          [Suc k..<Suc k + n]) =
     acc @ filter ?ok
       (map (\<lambda>i. fst (apply_pattern e pattern (int i) (w\<lparr>rng_pos := rng_pos w + 3 * (i - k)\<rparr>)))
          (k # [Suc k..<Suc k + n]))"
    using p by (simp del: upt_Suc)
  finally show ?case
    by (simp only: l)
qed

lemma generate_pattern_passwords_eq:
  "generate_pattern_passwords e self pattern count w =
     (filter (\<lambda>pwd. min_len self \<le> int (length pwd) \<and> int (length pwd) \<le> max_len self)
        (map (\<lambda>i. fst (apply_pattern e pattern (int i) (w\<lparr>rng_pos := rng_pos w + 3 * i\<rparr>)))
           [0..<nat count]),
      (print ''[*] Generating pattern-based passwords...'' w)\<lparr>rng_pos := rng_pos w + 3 * nat count\<rparr>)"
proof -
  let ?w = "print ''[*] Generating pattern-based passwords...'' w"
  have "\<And>i. fst (apply_pattern e pattern (int i) (?w\<lparr>rng_pos := rng_pos ?w + 3 * (i - 0)\<rparr>)) =
      fst (apply_pattern e pattern (int i) (w\<lparr>rng_pos := rng_pos w + 3 * i\<rparr>))"
    by (simp add: apply_pattern_eq print_def)
  then show ?thesis
    using pattern_loop_eq [of e self pattern 0 "nat count" "[]" ?w]
    by (simp add: generate_pattern_passwords_def upto_as_upt print_def)
qed

lemma apply_pattern_four_indices:
  "fst (apply_pattern e ''{n}{n}{n}{n}'' seed w) =
     str_int seed @ str_int seed @ str_int seed @ str_int seed"
proof -
  let ?v = "str_int seed"
  have "replace (''{n}'' @ ''{n}'' @ ''{n}'' @ ''{n}'' @ []) ''{n}'' ?v = ?v @ ?v @ ?v @ ?v @ []"
    by (simp only: replace_here [of "''{n}''", OF list.distinct(2)] replace_Nil [OF list.distinct(2)])
  then have r: "replace ''{n}{n}{n}{n}'' ''{n}'' ?v = ?v @ ?v @ ?v @ ?v"
    by simp
  have "CHR ''{'' \<notin> set (?v @ ?v @ ?v @ ?v)"
    using str_int_no_brace by simp
  then show ?thesis
    by (simp add: apply_pattern_eq r replace_absent del: set_append)
qed

text \<open>
  C2. \<^verbatim>\<open>generate_pattern_passwords\<close> returns the expansions for the seeds 0, 1, ...,
  \<open>count - 1\<close>, taken in that order and each made at the position of the random generator
  the preceding ones left (three draws per expansion), filtered to those whose length lies
  between \<open>min_len\<close> and \<open>max_len\<close> inclusive, in the order of the seeds. The generator ends
  exactly \<open>3 * count\<close> draws further: the expander was called \<open>count\<close> times and nothing was
  regenerated. The result has at most \<open>count\<close> entries. With the bounds 6 and 10 an
  expansion of length 8 is kept and one of length 4 or 12 is not.
\<close>

theorem generate_pattern_passwords_filtered:
  "fst (generate_pattern_passwords e self pattern count w) =
     filter (\<lambda>pwd. min_len self \<le> int (length pwd) \<and> int (length pwd) \<le> max_len self)
       (map (\<lambda>i. fst (apply_pattern e pattern (int i) (w\<lparr>rng_pos := rng_pos w + 3 * i\<rparr>)))
          [0..<nat count]) \<and>
   rng_pos (snd (generate_pattern_passwords e self pattern count w)) = rng_pos w + 3 * nat count \<and>
   length (fst (generate_pattern_passwords e self pattern count w)) \<le> nat count \<and>
   (min_len self = 6 \<and> max_len self = 10 \<and> i < nat count \<longrightarrow>
      (length (fst (apply_pattern e pattern (int i) (w\<lparr>rng_pos := rng_pos w + 3 * i\<rparr>))) = 8 \<longrightarrow>
         fst (apply_pattern e pattern (int i) (w\<lparr>rng_pos := rng_pos w + 3 * i\<rparr>))
           \<in> set (fst (generate_pattern_passwords e self pattern count w))) \<and>
      (length (fst (apply_pattern e pattern (int i) (w\<lparr>rng_pos := rng_pos w + 3 * i\<rparr>))) = 4 \<or>
       length (fst (apply_pattern e pattern (int i) (w\<lparr>rng_pos := rng_pos w + 3 * i\<rparr>))) = 12 \<longrightarrow>
         fst (apply_pattern e pattern (int i) (w\<lparr>rng_pos := rng_pos w + 3 * i\<rparr>))
           \<notin> set (fst (generate_pattern_passwords e self pattern count w))))"
proof -
  let ?x = "\<lambda>i. fst (apply_pattern e pattern (int i) (w\<lparr>rng_pos := rng_pos w + 3 * i\<rparr>))"
  let ?ok = "\<lambda>pwd. min_len self \<le> int (length pwd) \<and> int (length pwd) \<le> max_len self"
  have r: "fst (generate_pattern_passwords e self pattern count w) = filter ?ok (map ?x [0..<nat count])"
    by (simp add: generate_pattern_passwords_eq)
  have "length (filter ?ok (map ?x [0..<nat count])) \<le> length (map ?x [0..<nat count])"
    by (rule length_filter_le)
  then have l: "length (fst (generate_pattern_passwords e self pattern count w)) \<le> nat count"
    by (simp add: r)
  have p: "rng_pos (snd (generate_pattern_passwords e self pattern count w)) = rng_pos w + 3 * nat count"
    by (simp add: generate_pattern_passwords_eq)
  have m: "min_len self = 6 \<and> max_len self = 10 \<and> i < nat count \<longrightarrow>
      (length (?x i) = 8 \<longrightarrow> ?x i \<in> set (fst (generate_pattern_passwords e self pattern count w))) \<and>
      (length (?x i) = 4 \<or> length (?x i) = 12 \<longrightarrow>
         ?x i \<notin> set (fst (generate_pattern_passwords e self pattern count w)))"
    unfolding r by auto
  from r p l m show ?thesis by blast
qed

theorem generate_pattern_passwords_filtered_witness:
  "min_len (MassPassGen_init 6 10) = 6 \<and> max_len (MassPassGen_init 6 10) = 10 \<and>
   fst (apply_pattern env_ok ''{n}{n}{n}{n}'' 0 world0) = ''0000'' \<and>
   ''0000'' \<notin> set (fst (generate_pattern_passwords env_ok (MassPassGen_init 6 10) ''{n}{n}{n}{n}'' 101 world0)) \<and>
   ''10101010'' \<in> set (fst (generate_pattern_passwords env_ok (MassPassGen_init 6 10) ''{n}{n}{n}{n}'' 101 world0)) \<and>
   ''100100100100'' \<notin> set (fst (generate_pattern_passwords env_ok (MassPassGen_init 6 10) ''{n}{n}{n}{n}'' 101 world0)) \<and>
   length (fst (generate_pattern_passwords env_ok (MassPassGen_init 6 10) ''{n}{n}{n}{n}'' 101 world0)) \<le> 101"
proof -
  let ?g = "fst (generate_pattern_passwords env_ok (MassPassGen_init 6 10) ''{n}{n}{n}{n}'' 101 world0)"
  let ?x = "\<lambda>i. fst (apply_pattern env_ok ''{n}{n}{n}{n}'' (int i) (world0\<lparr>rng_pos := rng_pos world0 + 3 * i\<rparr>))"
  have s: "str_int 0 = ''0''" "str_int 10 = ''10''" "str_int 100 = ''100''"
    by (simp_all add: str_int_def str_nat.simps digits_def)
  have x: "?x 0 = ''0000''" "?x 10 = ''10101010''" "?x 100 = ''100100100100''"
    by (simp_all add: apply_pattern_four_indices s)
  have b: "min_len (MassPassGen_init 6 10) = 6" "max_len (MassPassGen_init 6 10) = 10"
    by (simp_all add: MassPassGen_init_def)
  note t = generate_pattern_passwords_filtered [of env_ok "MassPassGen_init 6 10" "''{n}{n}{n}{n}''" 101 world0]
  have "length (?x 0) = 4" "length (?x 10) = 8" "length (?x 100) = 12"
    by (simp_all only: x, simp_all)
  with b t [of 0] t [of 10] t [of 100]
  have "?x 0 \<notin> set ?g" "?x 10 \<in> set ?g" "?x 100 \<notin> set ?g" "length ?g \<le> nat 101"
    by simp_all
  moreover have "fst (apply_pattern env_ok ''{n}{n}{n}{n}'' 0 world0) = ''0000''"
    by (simp add: apply_pattern_four_indices s)
  ultimately show ?thesis
    using b by (simp only: x, simp)
qed

subsection \<open>The random sampler\<close>

lemma length_charset: "length charset = 94"
  by (simp add: charset_def ascii_letters_def ascii_lowercase_def ascii_uppercase_def digits_def
      punctuation_def)

lemma sampled_props: "length (sampled e t p j) = nat t" "set (sampled e t p j) \<subseteq> set charset"
proof -
  show "length (sampled e t p j) = nat t" by (simp add: sampled_def)
  have "\<And>k. charset ! (k mod length charset) \<in> set charset"
    by (rule nth_mem) (simp add: length_charset)
  then show "set (sampled e t p j) \<subseteq> set charset"
    by (auto simp: sampled_def)
qed

lemma loop_inv_start: "loop_inv e t (rng_pos w) 0 [] w"
  by (simp add: loop_inv_def)

lemma sampling_step_inv:
  assumes "loop_inv e t p j ps w"
  shows "loop_inv e t p (Suc j) (fst (sampling_step e count t ps w)) (snd (sampling_step e count t ps w))"
    and "length (fst (sampling_step e count t ps w)) \<le> Suc (length ps)"
proof -
  from assms have r: "rng_pos w = p + j * nat t" by (simp add: loop_inv_def)
  have c: "random_choices e charset t w = (sampled e t p j, w\<lparr>rng_pos := p + Suc j * nat t\<rparr>)"
    by (simp add: random_choices_def sampled_def r add.commute add.left_commute)
  have f: "fst (sampling_step e count t ps w) = set_add (sampled e t p j) ps"
    by (simp add: sampling_step_def c Let_def)
  have s: "rng_pos (snd (sampling_step e count t ps w)) = p + Suc j * nat t"
    by (simp add: sampling_step_def c Let_def print_def)
  from assms have "distinct (set_add (sampled e t p j) ps)"
    and "set (set_add (sampled e t p j) ps) = sampled e t p ` {..<Suc j}"
    by (auto simp: loop_inv_def set_add_def lessThan_Suc)
  with f s show "loop_inv e t p (Suc j) (fst (sampling_step e count t ps w))
      (snd (sampling_step e count t ps w))"
    by (simp add: loop_inv_def)
  show "length (fst (sampling_step e count t ps w)) \<le> Suc (length ps)"
    by (simp add: f set_add_def)
qed

lemma sampling_loop_exit:
  "\<not> int (length ps) < count \<Longrightarrow> sampling_loop e count t ps w = Some (ps, w)"
  by (subst sampling_loop.simps) simp

lemma sampling_loop_iter:
  "int (length ps) < count \<Longrightarrow>
   sampling_loop e count t ps w =
     sampling_loop e count t (fst (sampling_step e count t ps w)) (snd (sampling_step e count t ps w))"
  by (subst sampling_loop.simps) (simp add: case_prod_beta)

lemma sampling_loop_partial:
  assumes "sampling_loop e count t ps w = Some y"
  shows "\<forall>j. loop_inv e t p j ps w \<longrightarrow>
     (\<exists>j'. loop_inv e t p j' (fst y) (snd y)) \<and> \<not> int (length (fst y)) < count \<and>
     (int (length ps) \<le> count \<longrightarrow> int (length (fst y)) \<le> count)"
proof (rule sampling_loop.raw_induct [where P = "\<lambda>e count t ps w y.
     \<forall>j. loop_inv e t p j ps w \<longrightarrow>
     (\<exists>j'. loop_inv e t p j' (fst y) (snd y)) \<and> \<not> int (length (fst y)) < count \<and>
     (int (length ps) \<le> count \<longrightarrow> int (length (fst y)) \<le> count)", OF _ assms])
  fix loop e count t ps w y
  assume IH: "\<And>e count t ps w y. loop e count t ps w = Some y \<Longrightarrow>
     \<forall>j. loop_inv e t p j ps w \<longrightarrow>
     (\<exists>j'. loop_inv e t p j' (fst y) (snd y)) \<and> \<not> int (length (fst y)) < count \<and>
     (int (length ps) \<le> count \<longrightarrow> int (length (fst y)) \<le> count)"
  assume body: "(if int (length ps) < count
       then case sampling_step e count t ps w of (passwords, w) \<Rightarrow> loop e count t passwords w
       else Some (ps, w)) = Some y"
  show "\<forall>j. loop_inv e t p j ps w \<longrightarrow>
     (\<exists>j'. loop_inv e t p j' (fst y) (snd y)) \<and> \<not> int (length (fst y)) < count \<and>
     (int (length ps) \<le> count \<longrightarrow> int (length (fst y)) \<le> count)"
  proof (cases "int (length ps) < count")
    case False
    with body have "y = (ps, w)" by simp
    with False show ?thesis by auto
  next
    case True
    let ?ps = "fst (sampling_step e count t ps w)" and ?w = "snd (sampling_step e count t ps w)"
    from True body have l: "loop e count t ?ps ?w = Some y"
      by (simp add: case_prod_beta)
    show ?thesis
    proof (intro allI impI)
      fix j
      assume i: "loop_inv e t p j ps w"
      note s = sampling_step_inv [OF i, of count]
      from s(2) True have "int (length ?ps) \<le> count" by simp
      with IH [OF l] s(1) show "(\<exists>j'. loop_inv e t p j' (fst y) (snd y)) \<and>
          \<not> int (length (fst y)) < count \<and> (int (length ps) \<le> count \<longrightarrow> int (length (fst y)) \<le> count)"
        by blast
    qed
  qed
qed

lemma sampling_loop_terminates:
  assumes "loop_inv e t p j ps w" and "count \<le> int (card (sampled e t p ` {..<N}))"
  shows "sampling_loop e count t ps w \<noteq> None"
  using assms
proof (induction "N - j" arbitrary: j ps w)
  case 0
  then have "sampled e t p ` {..<N} \<subseteq> sampled e t p ` {..<j}" by auto
  then have "card (sampled e t p ` {..<N}) \<le> card (sampled e t p ` {..<j})"
    by (intro card_mono) auto
  also from 0 have "\<dots> = length ps"
    by (metis loop_inv_def distinct_card)
  finally have "\<not> int (length ps) < count" using 0 by simp
  then show ?case by (simp add: sampling_loop_exit)
next
  case (Suc n)
  show ?case
  proof (cases "int (length ps) < count")
    case False
    then show ?thesis by (simp add: sampling_loop_exit)
  next
    case True
    note s = sampling_step_inv(1) [OF Suc.prems(1), of count]
    from Suc.hyps(2) have "n = N - Suc j" by simp
    from Suc.hyps(1) [OF this s Suc.prems(2)] True show ?thesis
      by (simp add: sampling_loop_iter)
  qed
qed

lemma sampling_loop_result:
  assumes "sampling_loop e count t [] w = Some (ps, w')"
  shows "distinct ps" and "\<forall>p\<in>set ps. length p = nat t \<and> set p \<subseteq> set charset"
    and "length ps = nat count" and "\<exists>N. set ps = sampled e t (rng_pos w) ` {..<N}"
proof -
  from sampling_loop_partial [OF assms, of "rng_pos w"] loop_inv_start [of e t w]
  obtain j where j: "loop_inv e t (rng_pos w) j ps w'" and c: "\<not> int (length ps) < count"
    and l: "0 \<le> count \<longrightarrow> int (length ps) \<le> count"
    by auto
  from j show "distinct ps" by (simp add: loop_inv_def)
  from j have s: "set ps = sampled e t (rng_pos w) ` {..<j}" by (simp add: loop_inv_def)
  then show "\<exists>N. set ps = sampled e t (rng_pos w) ` {..<N}" ..
  from s show "\<forall>p\<in>set ps. length p = nat t \<and> set p \<subseteq> set charset"
    using sampled_props by auto
  show "length ps = nat count"
  proof (cases "0 \<le> count")
    case True
    with c l show ?thesis by simp
  next
    case False
    then have "sampling_loop e count t [] w = Some ([], w)"
      by (intro sampling_loop_exit) simp
    with assms False show ?thesis by simp
  qed
qed

lemma sampling_loop_returns_iff:
  "sampling_loop e count t [] w \<noteq> None \<longleftrightarrow>
     (\<exists>N. count \<le> int (card (sampled e t (rng_pos w) ` {..<N})))"
proof
  assume "sampling_loop e count t [] w \<noteq> None"
  then obtain ps w' where r: "sampling_loop e count t [] w = Some (ps, w')" by auto
  from sampling_loop_result [OF r] obtain N where
    "distinct ps" "length ps = nat count" "set ps = sampled e t (rng_pos w) ` {..<N}"
    by blast
  then have "card (sampled e t (rng_pos w) ` {..<N}) = nat count"
    by (metis distinct_card)
  then have "count \<le> int (card (sampled e t (rng_pos w) ` {..<N}))" by simp
  then show "\<exists>N. count \<le> int (card (sampled e t (rng_pos w) ` {..<N}))" ..
next
  assume "\<exists>N. count \<le> int (card (sampled e t (rng_pos w) ` {..<N}))"
  then obtain N where "count \<le> int (card (sampled e t (rng_pos w) ` {..<N}))" ..
  with loop_inv_start show "sampling_loop e count t [] w \<noteq> None"
    by (rule sampling_loop_terminates)
qed

lemma card_sampled_le: "card (sampled e t p ` S) \<le> 94 ^ nat t"
proof -
  have "sampled e t p ` S \<subseteq> {xs. set xs \<subseteq> set charset \<and> length xs = nat t}"
    using sampled_props by blast
  moreover have f: "finite {xs. set xs \<subseteq> set charset \<and> length xs = nat t}"
    by (rule finite_lists_length_eq) simp
  ultimately have "card (sampled e t p ` S) \<le> card {xs. set xs \<subseteq> set charset \<and> length xs = nat t}"
    by (intro card_mono)
  also have "\<dots> = card (set charset) ^ nat t"
    by (rule card_lists_length_eq) simp
  also have "\<dots> \<le> length charset ^ nat t"
    by (intro power_mono card_length) simp
  finally show ?thesis by (simp add: length_charset)
qed

lemma sampling_loop_never_returns:
  assumes "94 ^ nat t < count"
  shows "sampling_loop e count t [] w = None"
proof -
  have "\<not> (\<exists>N. count \<le> int (card (sampled e t (rng_pos w) ` {..<N})))"
  proof
    assume "\<exists>N. count \<le> int (card (sampled e t (rng_pos w) ` {..<N}))"
    then obtain N where "count \<le> int (card (sampled e t (rng_pos w) ` {..<N}))" ..
    also have "\<dots> \<le> int (94 ^ nat t)"
      using card_sampled_le [of e t "rng_pos w" "{..<N}"] by (simp only: of_nat_le_iff)
    finally show False using assms by simp
  qed
  then show ?thesis
    using sampling_loop_returns_iff [of e count t w] by blast
qed

lemma generate_random_passwords_fixed:
  "L \<noteq> 0 \<Longrightarrow>
   generate_random_passwords e self count (Some L) w =
     (case sampling_loop e count L []
             (print (''[*] Generating '' @ str_int count @ '' random passwords...'') w) of
        None \<Rightarrow> None
      | Some (passwords, w) \<Rightarrow> Some (Inr passwords, w))"
  by (simp add: generate_random_passwords_def truthy_int_def)

lemma generate_random_passwords_drawn:
  "\<not> truthy_int len \<Longrightarrow> min_len self \<le> max_len self \<Longrightarrow>
   generate_random_passwords e self count len w =
     (case sampling_loop e count
             (min_len self + int (tape e (rng_pos w) mod nat (max_len self - min_len self + 1))) []
             (print (''[*] Generating '' @ str_int count @ '' random passwords...'')
                (w\<lparr>rng_pos := Suc (rng_pos w)\<rparr>)) of
        None \<Rightarrow> None
      | Some (passwords, w) \<Rightarrow> Some (Inr passwords, w))"
  by (simp add: generate_random_passwords_def randint_def)

lemma generate_random_passwords_raises:
  "\<not> truthy_int len \<Longrightarrow> max_len self < min_len self \<Longrightarrow>
   generate_random_passwords e self count len w = Some (Inl ValueError, w)"
  by (simp add: generate_random_passwords_def randint_def)

text \<open>
  C1 as stated fails: there are only 94 strings of length 1 over the charset, so a request
  for 95 distinct ones never returns.
\<close>

theorem sampler_stalls_counterexample:
  "generate_random_passwords env_ok (MassPassGen_init 6 12) 95 (Some 1) world0 = None"
proof -
  have "(94::int) ^ nat 1 < 95" by simp
  then have "sampling_loop env_ok 95 1 []
      (print (''[*] Generating '' @ str_int 95 @ '' random passwords...'') world0) = None"
    by (rule sampling_loop_never_returns)
  then show ?thesis
    by (simp add: generate_random_passwords_fixed)
qed

text \<open>
  C1, amended. For a count and a fixed length of at least 1: whenever the call returns, it
  returns a list with exactly \<open>count\<close> members, all distinct, each of the length asked for
  and made of characters of the charset (the loop never ends early). The call returns
  exactly when the random generator, from its current position on, eventually delivers
  \<open>count\<close> different strings; it never returns when \<open>count\<close> exceeds the \<open>94 ^ L\<close> strings
  there are.
\<close>

theorem generate_random_passwords_result:
  assumes "1 \<le> count" and "1 \<le> L"
  shows "(generate_random_passwords e self count (Some L) w = Some (r, w') \<longrightarrow>
            (\<exists>ps. r = Inr ps \<and> int (length ps) = count \<and> distinct ps \<and>
                  (\<forall>p\<in>set ps. int (length p) = L \<and> set p \<subseteq> set charset))) \<and>
         (generate_random_passwords e self count (Some L) w \<noteq> None \<longleftrightarrow>
            (\<exists>N. count \<le> int (card (sampled e L (rng_pos w) ` {..<N})))) \<and>
         (94 ^ nat L < count \<longrightarrow> generate_random_passwords e self count (Some L) w = None)"
proof -
  let ?w = "print (''[*] Generating '' @ str_int count @ '' random passwords...'') w"
  from assms have g: "generate_random_passwords e self count (Some L) w =
     (case sampling_loop e count L [] ?w of None \<Rightarrow> None
      | Some (passwords, w) \<Rightarrow> Some (Inr passwords, w))"
    by (intro generate_random_passwords_fixed) simp
  have p: "rng_pos ?w = rng_pos w" by (simp add: print_def)
  have 1: "generate_random_passwords e self count (Some L) w = Some (r, w') \<longrightarrow>
            (\<exists>ps. r = Inr ps \<and> int (length ps) = count \<and> distinct ps \<and>
                  (\<forall>p\<in>set ps. int (length p) = L \<and> set p \<subseteq> set charset))"
  proof
    assume "generate_random_passwords e self count (Some L) w = Some (r, w')"
    with g obtain ps where r: "r = Inr ps" and l: "sampling_loop e count L [] ?w = Some (ps, w')"
      by (auto split: option.splits)
    from sampling_loop_result [OF l] assms
    have "int (length ps) = count" "distinct ps"
      "\<forall>p\<in>set ps. int (length p) = L \<and> set p \<subseteq> set charset"
      by auto
    with r show "\<exists>ps. r = Inr ps \<and> int (length ps) = count \<and> distinct ps \<and>
                  (\<forall>p\<in>set ps. int (length p) = L \<and> set p \<subseteq> set charset)"
      by blast
  qed
  have "generate_random_passwords e self count (Some L) w \<noteq> None \<longleftrightarrow>
      sampling_loop e count L [] ?w \<noteq> None"
    by (auto simp: g split: option.splits)
  then have 2: "generate_random_passwords e self count (Some L) w \<noteq> None \<longleftrightarrow>
            (\<exists>N. count \<le> int (card (sampled e L (rng_pos w) ` {..<N})))"
    by (simp only: sampling_loop_returns_iff p)
  have 3: "94 ^ nat L < count \<longrightarrow> generate_random_passwords e self count (Some L) w = None"
    by (simp add: g sampling_loop_never_returns)
  from 1 2 3 show ?thesis by blast
qed

lemma sampled_env_ok_1: "sampled env_ok 1 0 j = [charset ! ((j + 3) mod 94)]"
  by (simp add: sampled_def length_charset)

lemma charset_3_4_5: "charset ! 3 = CHR ''d''" "charset ! 4 = CHR ''e''" "charset ! 5 = CHR ''f''"
  by (simp_all add: charset_def ascii_letters_def ascii_lowercase_def)

theorem generate_random_passwords_result_witness:
  "(1::int) \<le> 3 \<and> (1::int) \<le> 1 \<and>
   generate_random_passwords env_ok (MassPassGen_init 6 12) 3 (Some 1) world0 \<noteq> None \<and>
   (\<exists>ps w'. generate_random_passwords env_ok (MassPassGen_init 6 12) 3 (Some 1) world0
              = Some (Inr ps, w') \<and> int (length ps) = 3 \<and> distinct ps) \<and>
   (1::int) \<le> 95 \<and> (94::int) ^ nat 1 < 95 \<and>
   generate_random_passwords env_ok (MassPassGen_init 6 12) 95 (Some 1) world0 = None"
proof -
  note t = generate_random_passwords_result [of 3 1 env_ok "MassPassGen_init 6 12" world0]
  have "{..<3::nat} = {0, 1, 2}" by auto
  then have "sampled env_ok 1 0 ` {..<3} = {''d'', ''e'', ''f''}"
    by (simp add: sampled_env_ok_1 charset_3_4_5)
  then have "card (sampled env_ok 1 0 ` {..<3}) = 3" by simp
  then have "\<exists>N. (3::int) \<le> int (card (sampled env_ok 1 (rng_pos world0) ` {..<N}))"
    by (intro exI [of _ 3]) simp
  with t have n: "generate_random_passwords env_ok (MassPassGen_init 6 12) 3 (Some 1) world0 \<noteq> None"
    by simp
  then obtain r w' where r: "generate_random_passwords env_ok (MassPassGen_init 6 12) 3 (Some 1) world0
      = Some (r, w')"
    by auto
  with t [of r w'] obtain ps where "r = Inr ps" "int (length ps) = 3" "distinct ps"
    by auto
  with r n have 1: "generate_random_passwords env_ok (MassPassGen_init 6 12) 3 (Some 1) world0 \<noteq> None \<and>
   (\<exists>ps w'. generate_random_passwords env_ok (MassPassGen_init 6 12) 3 (Some 1) world0
              = Some (Inr ps, w') \<and> int (length ps) = 3 \<and> distinct ps)"
    by auto
  have 2: "generate_random_passwords env_ok (MassPassGen_init 6 12) 95 (Some 1) world0 = None"
    using generate_random_passwords_result [of 95 1 env_ok "MassPassGen_init 6 12" world0] by simp
  from 1 2 show ?thesis by simp
qed

lemma charset_4_to_9: "map ((!) charset) [4, 5, 6, 7, 8, 9] = ''efghij''"
  by (simp add: charset_def ascii_letters_def ascii_lowercase_def)

lemma sampled_env_ok_6: "sampled env_ok 6 1 0 = ''efghij''"
proof -
  have "[0..<nat 6] = [0, 1, 2, 3, 4, 5]"
    by (simp add: upt_conv_Cons)
  then have "sampled env_ok 6 1 0 = map ((!) charset) [4, 5, 6, 7, 8, 9]"
    by (simp add: sampled_def length_charset)
  then show ?thesis by (simp only: charset_4_to_9)
qed

lemma sampling_step_fst:
  assumes "rng_pos w = p + j * nat t"
  shows "fst (sampling_step e count t ps w) = set_add (sampled e t p j) ps"
proof -
  have "random_choices e charset t w = (sampled e t p j, w\<lparr>rng_pos := p + Suc j * nat t\<rparr>)"
    by (simp add: random_choices_def sampled_def assms add.commute add.left_commute)
  then show ?thesis
    by (simp add: sampling_step_def Let_def)
qed

lemma generate_without_length:
  assumes "\<not> truthy_int len"
  shows "map_option fst (generate_random_passwords env_ok (MassPassGen_init 6 6) 1 len world0)
     = Some (Inr [''efghij''])"
proof -
  let ?w = "print (''[*] Generating '' @ str_int 1 @ '' random passwords...'')
      (world0\<lparr>rng_pos := Suc (rng_pos world0)\<rparr>)"
  have "rng_pos ?w = 1 + 0 * nat 6"
    by (simp add: print_def)
  then have "fst (sampling_step env_ok 1 6 [] ?w) = set_add (sampled env_ok 6 1 0) []"
    by (rule sampling_step_fst)
  then have f: "fst (sampling_step env_ok 1 6 [] ?w) = [''efghij'']"
    by (simp only: sampled_env_ok_6) (simp add: set_add_def)
  have "sampling_loop env_ok 1 6 [] ?w =
      sampling_loop env_ok 1 6 (fst (sampling_step env_ok 1 6 [] ?w)) (snd (sampling_step env_ok 1 6 [] ?w))"
    by (rule sampling_loop_iter) simp
  also have "\<dots> = Some (fst (sampling_step env_ok 1 6 [] ?w), snd (sampling_step env_ok 1 6 [] ?w))"
    by (rule sampling_loop_exit) (simp only: f, simp)
  finally have l: "sampling_loop env_ok 1 6 [] ?w =
      Some ([''efghij''], snd (sampling_step env_ok 1 6 [] ?w))"
    by (simp only: f)
  have "min_len (MassPassGen_init 6 6) \<le> max_len (MassPassGen_init 6 6)"
    by (simp add: MassPassGen_init_def)
  with assms have "generate_random_passwords env_ok (MassPassGen_init 6 6) 1 len world0 =
     (case sampling_loop env_ok 1
             (min_len (MassPassGen_init 6 6) + int (tape env_ok (rng_pos world0)
                mod nat (max_len (MassPassGen_init 6 6) - min_len (MassPassGen_init 6 6) + 1))) []
             (print (''[*] Generating '' @ str_int 1 @ '' random passwords...'')
                (world0\<lparr>rng_pos := Suc (rng_pos world0)\<rparr>)) of
        None \<Rightarrow> None
      | Some (passwords, w) \<Rightarrow> Some (Inr passwords, w))"
    by (rule generate_random_passwords_drawn)
  moreover have "min_len (MassPassGen_init 6 6) + int (tape env_ok (rng_pos world0)
                mod nat (max_len (MassPassGen_init 6 6) - min_len (MassPassGen_init 6 6) + 1)) = 6"
    by (simp add: MassPassGen_init_def)
  ultimately show ?thesis
    by (simp only: l) simp
qed

text \<open>
  C4 as stated fails for a fixed length of 0: \<^verbatim>\<open>if length:\<close> takes it for a missing one,
  the length is drawn from the range (here 6 to 6) and the output has six characters.
\<close>

theorem fixed_length_zero_counterexample:
  "map_option fst (generate_random_passwords env_ok (MassPassGen_init 6 6) 1 (Some 0) world0)
     = Some (Inr [''efghij'']) \<and>
   length ''efghij'' \<noteq> 0"
proof -
  have "\<not> truthy_int (Some 0)"
    by (simp add: truthy_int_def)
  then show ?thesis
    by (simp add: generate_without_length)
qed

text \<open>
  C4, amended. With a fixed length other than 0 the sampling loop runs with that length as
  its target, from the position of the generator the call found: no value is drawn for
  the length. With no fixed length, or the fixed length 0, and \<open>min_len \<le> max_len\<close>, one
  target between \<open>min_len\<close> and \<open>max_len\<close> is drawn before the loop, which runs with it.
  In both cases there is one target \<open>t\<close> for the whole call and every output has the length
  \<open>max 0 t\<close> (a negative target gives empty strings): all outputs of a call share one
  length.
\<close>

theorem target_length_selection:
  "(L \<noteq> 0 \<longrightarrow>
      generate_random_passwords e self count (Some L) w =
        (case sampling_loop e count L []
                (print (''[*] Generating '' @ str_int count @ '' random passwords...'') w) of
           None \<Rightarrow> None
         | Some (passwords, w) \<Rightarrow> Some (Inr passwords, w))) \<and>
   ((len = None \<or> len = Some 0) \<and> min_len self \<le> max_len self \<longrightarrow>
      (\<exists>t. min_len self \<le> t \<and> t \<le> max_len self \<and>
           generate_random_passwords e self count len w =
             (case sampling_loop e count t []
                     (print (''[*] Generating '' @ str_int count @ '' random passwords...'')
                        (w\<lparr>rng_pos := Suc (rng_pos w)\<rparr>)) of
                None \<Rightarrow> None
              | Some (passwords, w) \<Rightarrow> Some (Inr passwords, w)))) \<and>
   (generate_random_passwords e self count len w = Some (Inr ps, w') \<longrightarrow>
      (\<exists>t. (\<forall>p\<in>set ps. int (length p) = max 0 t) \<and>
           (\<forall>L. len = Some L \<and> L \<noteq> 0 \<longrightarrow> t = L) \<and>
           (len = None \<or> len = Some 0 \<longrightarrow> min_len self \<le> t \<and> t \<le> max_len self)))"
proof (intro conjI impI)
  assume "L \<noteq> 0"
  then show "generate_random_passwords e self count (Some L) w =
        (case sampling_loop e count L []
                (print (''[*] Generating '' @ str_int count @ '' random passwords...'') w) of
           None \<Rightarrow> None
         | Some (passwords, w) \<Rightarrow> Some (Inr passwords, w))"
    by (rule generate_random_passwords_fixed)
next
  let ?t = "min_len self + int (tape e (rng_pos w) mod nat (max_len self - min_len self + 1))"
  assume a: "(len = None \<or> len = Some 0) \<and> min_len self \<le> max_len self"
  then have n: "\<not> truthy_int len"
    by (auto simp: truthy_int_def)
  from a have "int (tape e (rng_pos w) mod nat (max_len self - min_len self + 1))
      < int (nat (max_len self - min_len self + 1))"
    by (simp only: of_nat_less_iff) simp
  with a have "min_len self \<le> ?t" "?t \<le> max_len self"
    by simp_all
  with generate_random_passwords_drawn [OF n, of self e count w] a
  show "\<exists>t. min_len self \<le> t \<and> t \<le> max_len self \<and>
           generate_random_passwords e self count len w =
             (case sampling_loop e count t []
                     (print (''[*] Generating '' @ str_int count @ '' random passwords...'')
                        (w\<lparr>rng_pos := Suc (rng_pos w)\<rparr>)) of
                None \<Rightarrow> None
              | Some (passwords, w) \<Rightarrow> Some (Inr passwords, w))"
    by blast
next
  assume r: "generate_random_passwords e self count len w = Some (Inr ps, w')"
  show "\<exists>t. (\<forall>p\<in>set ps. int (length p) = max 0 t) \<and>
           (\<forall>L. len = Some L \<and> L \<noteq> 0 \<longrightarrow> t = L) \<and>
           (len = None \<or> len = Some 0 \<longrightarrow> min_len self \<le> t \<and> t \<le> max_len self)"
  proof (cases "truthy_int len")
    case True
    then obtain L where L: "len = Some L" "L \<noteq> 0"
      by (auto simp: truthy_int_def split: option.splits)
    with r generate_random_passwords_fixed [OF L(2), of e self count w]
    obtain w0 where "sampling_loop e count L [] w0 = Some (ps, w')"
      by (auto split: option.splits)
    from sampling_loop_result(2) [OF this] have "\<forall>p\<in>set ps. int (length p) = max 0 L"
      by auto
    with L show ?thesis by auto
  next
    case False
    then have l: "len = None \<or> len = Some 0"
      by (auto simp: truthy_int_def split: option.splits)
    have m: "min_len self \<le> max_len self"
    proof (rule ccontr)
      assume "\<not> min_len self \<le> max_len self"
      then have "generate_random_passwords e self count len w = Some (Inl ValueError, w)"
        using False by (intro generate_random_passwords_raises) simp_all
      with r show False by simp
    qed
    let ?t = "min_len self + int (tape e (rng_pos w) mod nat (max_len self - min_len self + 1))"
    from m have "int (tape e (rng_pos w) mod nat (max_len self - min_len self + 1))
        < int (nat (max_len self - min_len self + 1))"
      by (simp only: of_nat_less_iff) simp
    with m have b: "min_len self \<le> ?t" "?t \<le> max_len self"
      by simp_all
    from r generate_random_passwords_drawn [OF False m, of e count w]
    obtain w0 where "sampling_loop e count ?t [] w0 = Some (ps, w')"
      by (auto split: option.splits)
    from sampling_loop_result(2) [OF this] have "\<forall>p\<in>set ps. int (length p) = max 0 ?t"
      by auto
    with b l show ?thesis by auto
  qed
qed

theorem target_length_selection_witness:
  "(1::int) \<noteq> 0 \<and>
   generate_random_passwords env_ok (MassPassGen_init 6 6) 3 (Some 1) world0 =
     (case sampling_loop env_ok 3 1 []
             (print (''[*] Generating '' @ str_int 3 @ '' random passwords...'') world0) of
        None \<Rightarrow> None
      | Some (passwords, w) \<Rightarrow> Some (Inr passwords, w)) \<and>
   min_len (MassPassGen_init 6 6) \<le> max_len (MassPassGen_init 6 6) \<and>
   (\<exists>t. 6 \<le> t \<and> t \<le> 6 \<and>
      generate_random_passwords env_ok (MassPassGen_init 6 6) 1 (Some 0) world0 =
        (case sampling_loop env_ok 1 t []
                (print (''[*] Generating '' @ str_int 1 @ '' random passwords...'')
                   (world0\<lparr>rng_pos := Suc (rng_pos world0)\<rparr>)) of
           None \<Rightarrow> None
         | Some (passwords, w) \<Rightarrow> Some (Inr passwords, w))) \<and>
   (\<exists>ps w'. generate_random_passwords env_ok (MassPassGen_init 6 6) 1 None world0 = Some (Inr ps, w') \<and>
      list_all (\<lambda>p. int (length p) = 6) ps)"
proof -
  have 1: "generate_random_passwords env_ok (MassPassGen_init 6 6) 3 (Some 1) world0 =
     (case sampling_loop env_ok 3 1 []
             (print (''[*] Generating '' @ str_int 3 @ '' random passwords...'') world0) of
        None \<Rightarrow> None
      | Some (passwords, w) \<Rightarrow> Some (Inr passwords, w))"
    using target_length_selection [of 1 env_ok "MassPassGen_init 6 6" 3 world0] by simp
  have b: "min_len (MassPassGen_init 6 6) = 6" "max_len (MassPassGen_init 6 6) = 6"
    by (simp_all add: MassPassGen_init_def)
  have 2: "\<exists>t. 6 \<le> t \<and> t \<le> 6 \<and>
      generate_random_passwords env_ok (MassPassGen_init 6 6) 1 (Some 0) world0 =
        (case sampling_loop env_ok 1 t []
                (print (''[*] Generating '' @ str_int 1 @ '' random passwords...'')
                   (world0\<lparr>rng_pos := Suc (rng_pos world0)\<rparr>)) of
           None \<Rightarrow> None
         | Some (passwords, w) \<Rightarrow> Some (Inr passwords, w))"
    using target_length_selection [of 1 env_ok "MassPassGen_init 6 6" 1 world0 "Some 0"]
    unfolding b by blast
  have "\<not> truthy_int None"
    by (simp add: truthy_int_def)
  from generate_without_length [OF this]
  obtain ps w' where g: "generate_random_passwords env_ok (MassPassGen_init 6 6) 1 None world0
      = Some (Inr ps, w')"
    by auto
  with target_length_selection [of 1 env_ok "MassPassGen_init 6 6" 1 world0 None ps w']
  obtain t where "\<forall>p\<in>set ps. int (length p) = max 0 t" "6 \<le> t \<and> t \<le> 6"
    unfolding b by blast
  then have "list_all (\<lambda>p. int (length p) = 6) ps"
    by (auto simp: list_all_iff)
  with g have 3: "\<exists>ps w'. generate_random_passwords env_ok (MassPassGen_init 6 6) 1 None world0
      = Some (Inr ps, w') \<and> list_all (\<lambda>p. int (length p) = 6) ps"
    by blast
  from 1 2 3 b show ?thesis by (simp only: simp_thms) simp
qed

lemma newline_not_in_charset: "newline \<notin> set charset"
  by (simp add: charset_def ascii_letters_def ascii_lowercase_def ascii_uppercase_def digits_def
      punctuation_def newline_def)

lemma generate_random_passwords_loop:
  assumes "generate_random_passwords e self count len w = Some (Inr ps, w')"
  shows "\<exists>t w0. sampling_loop e count t [] w0 = Some (ps, w')"
proof (cases "truthy_int len")
  case True
  then obtain L where L: "len = Some L" "L \<noteq> 0"
    by (auto simp: truthy_int_def split: option.splits)
  with assms generate_random_passwords_fixed [OF L(2), of e self count w]
  show ?thesis
    by (auto split: option.splits)
next
  case False
  have m: "min_len self \<le> max_len self"
  proof (rule ccontr)
    assume "\<not> min_len self \<le> max_len self"
    then have "generate_random_passwords e self count len w = Some (Inl ValueError, w)"
      using False by (intro generate_random_passwords_raises) simp_all
    with assms show False by simp
  qed
  from assms generate_random_passwords_drawn [OF False m, of e count w]
  show ?thesis
    by (auto split: option.splits)
qed

lemma save_to_file_success:
  assumes "fst (save_to_file e ps f w)"
  shows "files (snd (save_to_file e ps f w)) f = Some (joined_lines ps)"
proof (cases rule: save_to_file_cases [of e f ps w])
  case (unopened cause)
  with assms show ?thesis by simp
next
  case written
  then show ?thesis by (simp add: print_def)
next
  case (failed cause n)
  with assms show ?thesis by simp
qed

text \<open>
  C10. The line terminator is not a character of the charset. So no string the random
  sampler returns holds one, and when \<^verbatim>\<open>save_to_file\<close> succeeds on the collection
  returned, the file is the joined lines of the collection and reads back as exactly the
  collection: as many lines as passwords, each line one password.
\<close>

theorem sampled_passwords_are_lines:
  "newline \<notin> set charset \<and>
   (generate_random_passwords e self count len w = Some (Inr ps, w') \<longrightarrow>
      (\<forall>p\<in>set ps. newline \<notin> set p) \<and>
      (fst (save_to_file e ps f w') \<longrightarrow>
         files (snd (save_to_file e ps f w')) f = Some (joined_lines ps) \<and>
         read_lines (the (files (snd (save_to_file e ps f w')) f)) = ps \<and>
         length (read_lines (the (files (snd (save_to_file e ps f w')) f))) = length ps))"
proof (intro conjI impI)
  show "newline \<notin> set charset" by (rule newline_not_in_charset)
next
  assume "generate_random_passwords e self count len w = Some (Inr ps, w')"
  then obtain t w0 where "sampling_loop e count t [] w0 = Some (ps, w')"
    using generate_random_passwords_loop by blast
  from sampling_loop_result(2) [OF this] show n: "\<forall>p\<in>set ps. newline \<notin> set p"
    using newline_not_in_charset by auto
  assume "fst (save_to_file e ps f w')"
  then show s: "files (snd (save_to_file e ps f w')) f = Some (joined_lines ps)"
    by (rule save_to_file_success)
  from n have "read_lines (joined_lines ps) = ps"
    unfolding read_lines_def by (rule lines_from_joined)
  with s show "read_lines (the (files (snd (save_to_file e ps f w')) f)) = ps"
    and "length (read_lines (the (files (snd (save_to_file e ps f w')) f))) = length ps"
    by simp_all
qed

theorem sampled_passwords_are_lines_witness:
  "\<exists>ps w'. generate_random_passwords env_ok (MassPassGen_init 6 6) 1 None world0 = Some (Inr ps, w') \<and>
      list_all (\<lambda>p. newline \<notin> set p) ps \<and>
      fst (save_to_file env_ok ps ''out.txt'' w') \<and>
      read_lines (the (files (snd (save_to_file env_ok ps ''out.txt'' w')) ''out.txt'')) = ps"
proof -
  have "\<not> truthy_int None"
    by (simp add: truthy_int_def)
  from generate_without_length [OF this]
  obtain ps w' where g: "generate_random_passwords env_ok (MassPassGen_init 6 6) 1 None world0
      = Some (Inr ps, w')"
    by auto
  have s: "fst (save_to_file env_ok ps ''out.txt'' w')"
    by (simp add: save_to_file_succeeds)
  note t = sampled_passwords_are_lines [of env_ok "MassPassGen_init 6 6" 1 None world0 ps w' "''out.txt''"]
  from t g have "\<forall>p\<in>set ps. newline \<notin> set p"
    by blast
  then have "list_all (\<lambda>p. newline \<notin> set p) ps"
    by (simp add: list_all_iff)
  moreover from t g s
  have "read_lines (the (files (snd (save_to_file env_ok ps ''out.txt'' w')) ''out.txt'')) = ps"
    by blast
  ultimately show ?thesis
    using g s by blast
qed

subsection \<open>Sequential replacement and the one-pass substitution\<close>

lemma token_at_iff:
  "token_at \<sigma> s \<longleftrightarrow> (\<exists>k rest. s = CHR ''{'' # k # CHR ''}'' # rest \<and> \<sigma> k \<noteq> None)"
  by (cases "(\<sigma>, s)" rule: token_at.cases) auto

lemma substitute_token:
  "\<sigma> k = Some v \<Longrightarrow> substitute \<sigma> (CHR ''{'' # k # CHR ''}'' # rest) = v @ substitute \<sigma> rest"
  by simp

lemma substitute_no_token:
  "\<not> token_at \<sigma> (x # s) \<Longrightarrow> substitute \<sigma> (x # s) = x # substitute \<sigma> s"
proof (cases s)
  case Nil
  then show ?thesis by simp
next
  case (Cons k s')
  assume n: "\<not> token_at \<sigma> (x # s)"
  show ?thesis
  proof (cases s')
    case Nil
    with Cons show ?thesis by simp
  next
    case c: (Cons y rest)
    with Cons n show ?thesis
      by (auto simp: token_at_iff)
  qed
qed

lemma substitute_other: "x \<noteq> CHR ''{'' \<Longrightarrow> substitute \<sigma> (x # s) = x # substitute \<sigma> s"
  by (rule substitute_no_token) (simp add: token_at_iff)

lemma substitute_plain: "CHR ''{'' \<notin> set v \<Longrightarrow> substitute \<sigma> (v @ s) = v @ substitute \<sigma> s"
  by (induction v) (auto simp: substitute_other)

lemma replace_token:
  "replace s [CHR ''{'', k, CHR ''}''] v = substitute [k \<mapsto> v] s"
proof (induction s rule: length_induct)
  case (1 s)
  let ?old = "[CHR ''{'', k, CHR ''}'']"
  show ?case
  proof (cases s)
    case Nil
    then show ?thesis by simp
  next
    case (Cons x s')
    show ?thesis
    proof (cases "prefix ?old s")
      case True
      then obtain rest where r: "s = CHR ''{'' # k # CHR ''}'' # rest"
        by (auto simp: prefix_def)
      then have "replace s ?old v = v @ replace rest ?old v"
        by (subst replace.simps) simp
      also have "replace rest ?old v = substitute [k \<mapsto> v] rest"
        by (rule 1 [rule_format]) (simp add: r)
      finally have "replace s ?old v = v @ substitute [k \<mapsto> v] rest" .
      moreover have "substitute [k \<mapsto> v] s = v @ substitute [k \<mapsto> v] rest"
        unfolding r by (rule substitute_token) simp
      ultimately show ?thesis by (simp only:)
    next
      case False
      then have n: "\<not> token_at [k \<mapsto> v] (x # s')"
        using Cons by (auto simp: token_at_iff split: if_splits)
      from False Cons have "replace s ?old v = x # replace s' ?old v"
        by (subst replace.simps) auto
      also have "replace s' ?old v = substitute [k \<mapsto> v] s'"
        by (rule 1 [rule_format]) (simp add: Cons)
      finally have "replace s ?old v = x # substitute [k \<mapsto> v] s'" .
      moreover from n have "substitute [k \<mapsto> v] (x # s') = x # substitute [k \<mapsto> v] s'"
        by (rule substitute_no_token)
      ultimately show ?thesis by (simp only: Cons)
    qed
  qed
qed

lemma token_atE:
  assumes "token_at \<sigma> s"
  obtains k v rest where "s = CHR ''{'' # k # CHR ''}'' # rest" and "\<sigma> k = Some v"
  using assms by (auto simp: token_at_iff)

lemma substitute_head:
  assumes vals: "\<And>k v. \<sigma> k = Some v \<Longrightarrow> v \<noteq> [] \<and> CHR ''{'' \<notin> set v \<and> CHR ''}'' \<notin> set v"
    and "substitute \<sigma> s = CHR ''}'' # t"
  shows "\<exists>s'. s = CHR ''}'' # s'"
proof (cases s)
  case Nil
  with assms(2) show ?thesis by simp
next
  case (Cons c s')
  show ?thesis
  proof (cases "token_at \<sigma> s")
    case True
    then obtain k v rest where r: "s = CHR ''{'' # k # CHR ''}'' # rest" and k: "\<sigma> k = Some v"
      by (rule token_atE)
    then have "substitute \<sigma> s = v @ substitute \<sigma> rest"
      by (simp only: substitute_token)
    with assms(2) have "v @ substitute \<sigma> rest = CHR ''}'' # t" by simp
    moreover from vals [OF k] have "v \<noteq> []" "CHR ''}'' \<notin> set v" by simp_all
    ultimately have False by (cases v) auto
    then show ?thesis ..
  next
    case False
    then have "substitute \<sigma> s = c # substitute \<sigma> s'"
      unfolding Cons by (rule substitute_no_token)
    with assms(2) Cons show ?thesis by simp
  qed
qed

lemma substitute_then_token:
  assumes vals: "\<And>k1 v1. \<sigma> k1 = Some v1 \<Longrightarrow> v1 \<noteq> [] \<and> CHR ''{'' \<notin> set v1 \<and> CHR ''}'' \<notin> set v1"
    and fresh: "\<sigma> k = None"
    and key: "k \<noteq> CHR ''{''"
  shows "(\<forall>k1. \<sigma> k1 = Some [k] \<longrightarrow> \<not> sublist [CHR ''{'', CHR ''{'', k1, CHR ''}'', CHR ''}''] p) \<longrightarrow>
     substitute [k \<mapsto> v] (substitute \<sigma> p) = substitute (\<sigma>(k \<mapsto> v)) p"
proof (induction p rule: length_induct)
  case (1 p)
  let ?T1 = "substitute \<sigma>" and ?T2 = "substitute [k \<mapsto> v]" and ?T = "substitute (\<sigma>(k \<mapsto> v))"
  let ?tok = "\<lambda>k1. [CHR ''{'', CHR ''{'', k1, CHR ''}'', CHR ''}'']"
  show ?case
  proof
    assume safe: "\<forall>k1. \<sigma> k1 = Some [k] \<longrightarrow> \<not> sublist (?tok k1) p"
    have IH: "?T2 (?T1 q) = ?T q" if "length q < length p" and "suffix q p" for q
    proof -
      from that(2) have "sublist q p" by (rule suffix_imp_sublist)
      with safe have "\<forall>k1. \<sigma> k1 = Some [k] \<longrightarrow> \<not> sublist (?tok k1) q"
        using sublist_order.order.trans by blast
      with 1 that(1) show ?thesis by blast
    qed
    show "?T2 (?T1 p) = ?T p"
    proof (cases p)
      case Nil
      then show ?thesis by simp
    next
      case (Cons x q)
      consider (A) "token_at \<sigma> p" | (B) "\<not> token_at \<sigma> p" "token_at (\<sigma>(k \<mapsto> v)) p"
        | (C) "\<not> token_at (\<sigma>(k \<mapsto> v)) p"
        by blast
      then show ?thesis
      proof cases
        case A
        then obtain k1 v1 rest where r: "p = CHR ''{'' # k1 # CHR ''}'' # rest" and k1: "\<sigma> k1 = Some v1"
          by (rule token_atE)
        from k1 fresh have "k1 \<noteq> k" by auto
        with k1 have k1': "(\<sigma>(k \<mapsto> v)) k1 = Some v1" by simp
        from vals [OF k1] have nb: "CHR ''{'' \<notin> set v1" by simp
        have "?T1 p = v1 @ ?T1 rest"
          unfolding r using k1 by (rule substitute_token)
        then have "?T2 (?T1 p) = ?T2 (v1 @ ?T1 rest)"
          by (simp only:)
        also have "\<dots> = v1 @ ?T2 (?T1 rest)"
          using nb by (rule substitute_plain)
        also have "?T2 (?T1 rest) = ?T rest"
          by (rule IH) (simp_all add: r suffix_def)
        also have "v1 @ ?T rest = ?T p"
          unfolding r using k1' by (rule substitute_token [symmetric])
        finally show ?thesis .
      next
        case B
        from B(2) obtain k2 v2 rest where r: "p = CHR ''{'' # k2 # CHR ''}'' # rest"
          and k2: "(\<sigma>(k \<mapsto> v)) k2 = Some v2"
          by (rule token_atE)
        from B(1) r have "\<sigma> k2 = None" by (auto simp: token_at_iff)
        with k2 have e: "k2 = k" "v2 = v" by (auto split: if_splits)
        have "?T1 p = CHR ''{'' # ?T1 (k # CHR ''}'' # rest)"
          using B(1) unfolding r e by (rule substitute_no_token)
        also have "?T1 (k # CHR ''}'' # rest) = k # ?T1 (CHR ''}'' # rest)"
          using key by (rule substitute_other)
        also have "?T1 (CHR ''}'' # rest) = CHR ''}'' # ?T1 rest"
          by (rule substitute_other) simp
        finally have "?T2 (?T1 p) = ?T2 (CHR ''{'' # k # CHR ''}'' # ?T1 rest)" by simp
        also have "\<dots> = v @ ?T2 (?T1 rest)"
          by (rule substitute_token) simp
        also have "?T2 (?T1 rest) = ?T rest"
          by (rule IH) (simp_all add: r suffix_def)
        also have "v @ ?T rest = ?T p"
          unfolding r e by (rule substitute_token [symmetric]) simp
        finally show ?thesis .
      next
        case C
        have nt: "\<not> token_at \<sigma> p"
        proof
          assume "token_at \<sigma> p"
          then obtain k1 v1 rest where "p = CHR ''{'' # k1 # CHR ''}'' # rest" "\<sigma> k1 = Some v1"
            by (rule token_atE)
          with C show False by (auto simp: token_at_iff split: if_splits)
        qed
        then have t1: "?T1 p = x # ?T1 q"
          unfolding Cons by (rule substitute_no_token)
        have n2: "\<not> token_at [k \<mapsto> v] (x # ?T1 q)"
        proof
          assume "token_at [k \<mapsto> v] (x # ?T1 q)"
          then obtain k2 v2 t where "x # ?T1 q = CHR ''{'' # k2 # CHR ''}'' # t" "[k \<mapsto> v] k2 = Some v2"
            by (rule token_atE)
          then have x: "x = CHR ''{''" and q1: "?T1 q = k # CHR ''}'' # t"
            by (auto split: if_splits)
          from q1 obtain c q' where q: "q = c # q'" by (cases q) auto
          show False
          proof (cases "token_at \<sigma> q")
            case True
            then obtain k1 v1 rest where r: "q = CHR ''{'' # k1 # CHR ''}'' # rest" and k1: "\<sigma> k1 = Some v1"
              by (rule token_atE)
            then have "?T1 q = v1 @ ?T1 rest"
              by (simp only: substitute_token)
            with q1 have v: "v1 @ ?T1 rest = k # CHR ''}'' # t" by simp
            from vals [OF k1] have "v1 \<noteq> []" "CHR ''}'' \<notin> set v1" by simp_all
            with v have v1: "v1 = [k]" and rest: "?T1 rest = CHR ''}'' # t"
              by (cases v1; cases "tl v1"; auto)+
            from vals rest obtain s' where "rest = CHR ''}'' # s'"
              using substitute_head [of \<sigma> rest t] by blast
            with r x Cons have "p = ?tok k1 @ s'" by simp
            then have "sublist (?tok k1) p" by simp
            with safe k1 v1 show False by blast
          next
            case False
            then have "?T1 q = c # ?T1 q'"
              unfolding q by (rule substitute_no_token)
            with q1 have c: "c = k" and "?T1 q' = CHR ''}'' # t" by simp_all
            with vals obtain s' where "q' = CHR ''}'' # s'"
              using substitute_head [of \<sigma> q' t] by blast
            with c q x Cons have "p = CHR ''{'' # k # CHR ''}'' # s'" by simp
            then have "token_at (\<sigma>(k \<mapsto> v)) p" by (simp add: token_at_iff)
            with C show False ..
          qed
        qed
        have "?T2 (?T1 p) = x # ?T2 (?T1 q)"
          unfolding t1 using n2 by (rule substitute_no_token)
        also have "?T2 (?T1 q) = ?T q"
          by (rule IH) (simp_all add: Cons suffix_def)
        also have "x # ?T q = ?T p"
          unfolding Cons using C [unfolded Cons] by (rule substitute_no_token [symmetric])
        finally show ?thesis .
      qed
    qed
  qed
qed

lemma drawn_characters:
  "letter_at e p \<in> set ascii_letters" "digit_at e p \<in> set digits" "symbol_at e p \<in> set punctuation"
proof -
  have "0 < length ascii_letters" "0 < length digits" "0 < length punctuation"
    by (simp_all add: ascii_letters_def ascii_lowercase_def ascii_uppercase_def digits_def
        punctuation_def)
  then show "letter_at e p \<in> set ascii_letters" "digit_at e p \<in> set digits"
    "symbol_at e p \<in> set punctuation"
    unfolding letter_at_def digit_at_def symbol_at_def by (simp_all only: nth_mem mod_less_divisor)
qed

lemma brace_not_letter: "CHR ''{'' \<notin> set ascii_letters" "CHR ''}'' \<notin> set ascii_letters"
  by (simp_all add: ascii_letters_def ascii_lowercase_def ascii_uppercase_def)

lemma letter_not_digit:
  "CHR ''s'' \<notin> set digits" "CHR ''d'' \<notin> set digits" "CHR ''a'' \<notin> set digits"
  by (simp_all add: digits_def)

lemma str_int_not_letter:
  "str_int i \<noteq> [CHR ''a'']" "str_int i \<noteq> [CHR ''d'']" "str_int i \<noteq> [CHR ''s'']"
proof -
  have "set (str_int i) \<subseteq> insert (CHR ''-'') (set digits)"
    using set_str_nat by (auto simp: str_int_def)
  then have "CHR ''a'' \<notin> set (str_int i)" "CHR ''d'' \<notin> set (str_int i)" "CHR ''s'' \<notin> set (str_int i)"
    using letter_not_digit by auto
  then show "str_int i \<noteq> [CHR ''a'']" "str_int i \<noteq> [CHR ''d'']" "str_int i \<noteq> [CHR ''s'']"
    by auto
qed

lemma four_passes:
  assumes a: "a \<in> set ascii_letters" and d: "d \<in> set digits"
    and safe: "a = CHR ''d'' \<or> a = CHR ''s'' \<longrightarrow> \<not> sublist ''{{a}}'' pattern"
  shows "replace (replace (replace (replace pattern ''{n}'' (str_int seed)) ''{a}'' [a]) ''{d}'' [d])
           ''{s}'' [s] = expand_spec pattern (str_int seed) a d s"
proof -
  let ?n = "str_int seed"
  let ?\<sigma>1 = "[CHR ''n'' \<mapsto> ?n]"
  let ?\<sigma>2 = "[CHR ''n'' \<mapsto> ?n, CHR ''a'' \<mapsto> [a]]"
  let ?\<sigma>3 = "[CHR ''n'' \<mapsto> ?n, CHR ''a'' \<mapsto> [a], CHR ''d'' \<mapsto> [d]]"
  from a brace_not_letter have ab: "a \<noteq> CHR ''{''" "a \<noteq> CHR ''}''" by auto
  from d brace_not_digit have db: "d \<noteq> CHR ''{''" "d \<noteq> CHR ''}''" by auto
  from d letter_not_digit have ds: "d \<noteq> CHR ''s''" by auto
  note sb = str_int_no_brace [of seed] str_int_not_Nil [of seed] str_int_not_letter [of seed]
  have 1: "substitute [CHR ''a'' \<mapsto> [a]] (substitute ?\<sigma>1 pattern) = substitute ?\<sigma>2 pattern"
    using sb by (intro substitute_then_token [rule_format]) (auto split: if_splits)
  have 2: "substitute [CHR ''d'' \<mapsto> [d]] (substitute ?\<sigma>2 pattern) = substitute ?\<sigma>3 pattern"
    using sb ab safe by (intro substitute_then_token [rule_format]) (auto split: if_splits)
  have 3: "substitute [CHR ''s'' \<mapsto> [s]] (substitute ?\<sigma>3 pattern) =
      substitute (?\<sigma>3(CHR ''s'' \<mapsto> [s])) pattern"
    using sb ab db ds safe by (intro substitute_then_token [rule_format]) (auto split: if_splits)
  show ?thesis
    unfolding expand_spec_def
    by (simp only: replace_token 1 2 3)
qed

lemma drawn_env_ok:
  "letter_at env_ok 0 = CHR ''d''" "digit_at env_ok 1 = CHR ''4''" "symbol_at env_ok 2 = CHR ''&''"
  "digit_at env_ok (Suc 0) = CHR ''4''" "symbol_at env_ok (Suc (Suc 0)) = CHR ''&''"
  by (simp_all add: letter_at_def digit_at_def symbol_at_def ascii_letters_def ascii_lowercase_def
      ascii_uppercase_def digits_def punctuation_def)

text \<open>
  C3 as stated fails: in \<^verbatim>\<open>{{a}}\<close> the outer braces are literal text, yet when the letter
  drawn for \<^verbatim>\<open>{a}\<close> is \<^verbatim>\<open>d\<close> the text becomes \<^verbatim>\<open>{d}\<close>, which the next replacement turns
  into the digit drawn: the literal braces are gone, where the one-pass substitution
  gives \<^verbatim>\<open>{d}\<close>.
\<close>

theorem cascading_token_counterexample:
  "fst (apply_pattern env_ok ''{{a}}'' 0 world0) = ''4'' \<and>
   expand_spec ''{{a}}'' (str_int 0) (letter_at env_ok (rng_pos world0))
     (digit_at env_ok (rng_pos world0 + 1)) (symbol_at env_ok (rng_pos world0 + 2)) = ''{d}''"
proof -
  have "fst (apply_pattern env_ok ''{{a}}'' 0 world0) =
      substitute [CHR ''s'' \<mapsto> ''&''] (substitute [CHR ''d'' \<mapsto> ''4'']
        (substitute [CHR ''a'' \<mapsto> ''d''] (substitute [CHR ''n'' \<mapsto> ''0''] ''{{a}}'')))"
    by (simp add: apply_pattern_eq drawn_env_ok str_int_0 replace_token)
  also have "\<dots> = ''4''"
    by simp
  finally show ?thesis
    by (simp add: expand_spec_def drawn_env_ok)
qed

text \<open>
  C3, amended. The expansion is the result of replacing \<^verbatim>\<open>{n}\<close> by \<^verbatim>\<open>str(seed)\<close>, then
  \<^verbatim>\<open>{a}\<close> by one letter, then \<^verbatim>\<open>{d}\<close> by one digit, then \<^verbatim>\<open>{s}\<close> by one punctuation
  character, each drawn once per expansion; each replacement substitutes every occurrence
  of its token from left to right. Unless the drawn letter is \<^verbatim>\<open>d\<close> or \<^verbatim>\<open>s\<close> and the
  pattern contains \<^verbatim>\<open>{{a}}\<close>, the expansion is the one-pass substitution of the
  specification: every recognised token replaced by its text (the same one for all
  occurrences of a token), every other character, braces included, copied unchanged.
\<close>

theorem apply_pattern_substitutes_tokens:
  "letter_at e (rng_pos w) \<in> set ascii_letters \<and> digit_at e (rng_pos w + 1) \<in> set digits \<and>
   symbol_at e (rng_pos w + 2) \<in> set punctuation \<and>
   fst (apply_pattern e pattern seed w) =
     replace (replace (replace (replace pattern ''{n}'' (str_int seed))
       ''{a}'' [letter_at e (rng_pos w)])
       ''{d}'' [digit_at e (rng_pos w + 1)])
       ''{s}'' [symbol_at e (rng_pos w + 2)] \<and>
   (\<forall>s k v. replace s [CHR ''{'', k, CHR ''}''] v = substitute [k \<mapsto> v] s) \<and>
   ((letter_at e (rng_pos w) = CHR ''d'' \<or> letter_at e (rng_pos w) = CHR ''s'' \<longrightarrow>
       \<not> sublist ''{{a}}'' pattern) \<longrightarrow>
      fst (apply_pattern e pattern seed w) =
        expand_spec pattern (str_int seed) (letter_at e (rng_pos w))
          (digit_at e (rng_pos w + 1)) (symbol_at e (rng_pos w + 2)))"
proof -
  have r: "fst (apply_pattern e pattern seed w) =
     replace (replace (replace (replace pattern ''{n}'' (str_int seed))
       ''{a}'' [letter_at e (rng_pos w)])
       ''{d}'' [digit_at e (rng_pos w + 1)])
       ''{s}'' [symbol_at e (rng_pos w + 2)]"
    by (simp add: apply_pattern_eq)
  have "(letter_at e (rng_pos w) = CHR ''d'' \<or> letter_at e (rng_pos w) = CHR ''s'' \<longrightarrow>
       \<not> sublist ''{{a}}'' pattern) \<longrightarrow>
      fst (apply_pattern e pattern seed w) =
        expand_spec pattern (str_int seed) (letter_at e (rng_pos w))
          (digit_at e (rng_pos w + 1)) (symbol_at e (rng_pos w + 2))"
  proof
    assume "letter_at e (rng_pos w) = CHR ''d'' \<or> letter_at e (rng_pos w) = CHR ''s'' \<longrightarrow>
       \<not> sublist ''{{a}}'' pattern"
    with drawn_characters(1,2) show "fst (apply_pattern e pattern seed w) =
        expand_spec pattern (str_int seed) (letter_at e (rng_pos w))
          (digit_at e (rng_pos w + 1)) (symbol_at e (rng_pos w + 2))"
      unfolding r by (rule four_passes)
  qed
  with r drawn_characters replace_token show ?thesis
    by blast
qed

theorem apply_pattern_substitutes_tokens_witness:
  "\<not> sublist ''{{a}}'' ''x{a}{a}-{d}{s}{n}{q}{'' \<and>
   fst (apply_pattern env_ok ''x{a}{a}-{d}{s}{n}{q}{'' 5 world0) =
     expand_spec ''x{a}{a}-{d}{s}{n}{q}{'' (str_int 5) (letter_at env_ok (rng_pos world0))
       (digit_at env_ok (rng_pos world0 + 1)) (symbol_at env_ok (rng_pos world0 + 2)) \<and>
   expand_spec ''x{a}{a}-{d}{s}{n}{q}{'' ''5'' (CHR ''d'') (CHR ''4'') (CHR ''&'') = ''xdd-4&5{q}{''"
proof -
  have n: "\<not> sublist ''{{a}}'' ''x{a}{a}-{d}{s}{n}{q}{''"
    by (simp add: sublist_Cons_right)
  note t = apply_pattern_substitutes_tokens [of env_ok world0 "''x{a}{a}-{d}{s}{n}{q}{''" 5]
  from t n have "fst (apply_pattern env_ok ''x{a}{a}-{d}{s}{n}{q}{'' 5 world0) =
     expand_spec ''x{a}{a}-{d}{s}{n}{q}{'' (str_int 5) (letter_at env_ok (rng_pos world0))
       (digit_at env_ok (rng_pos world0 + 1)) (symbol_at env_ok (rng_pos world0 + 2))"
    by blast
  moreover have "expand_spec ''x{a}{a}-{d}{s}{n}{q}{'' ''5'' (CHR ''d'') (CHR ''4'') (CHR ''&'')
      = ''xdd-4&5{q}{''"
    by (simp add: expand_spec_def)
  ultimately show ?thesis
    using n by blast
qed

subsection \<open>The index token\<close>

lemma str_int_chars: "set (str_int i) \<subseteq> insert (CHR ''-'') (set digits)"
  using set_str_nat by (auto simp: str_int_def)

lemma str_int_not_key:
  "CHR ''a'' \<notin> set (str_int i)" "CHR ''d'' \<notin> set (str_int i)" "CHR ''s'' \<notin> set (str_int i)"
  using str_int_chars [of i] by (auto simp: digits_def)

lemma hd_str_nat: "0 < n \<Longrightarrow> hd (str_nat n) \<noteq> CHR ''0''"
proof (induction n rule: str_nat.induct)
  case (1 n)
  show ?case
  proof (cases "n < 10")
    case True
    with 1(2) have "n \<in> {1,2,3,4,5,6,7,8,9}" by auto
    then have "digits ! n \<noteq> CHR ''0''" by (auto simp: digits_def)
    with True show ?thesis by (subst str_nat.simps) simp
  next
    case False
    then have "0 < n div 10" by simp
    with 1(1) False have "hd (str_nat (n div 10)) \<noteq> CHR ''0''" by simp
    with False show ?thesis
      by (subst str_nat.simps) (simp add: str_nat_not_Nil)
  qed
qed

lemma substitute_around_token:
  assumes k: "\<sigma> k = Some v" and b: "\<sigma> (CHR ''{'') = None"
  shows "substitute \<sigma> (x @ CHR ''{'' # k # CHR ''}'' # y) = substitute \<sigma> x @ v @ substitute \<sigma> y"
proof (induction x rule: length_induct)
  case (1 x)
  show ?case
  proof (cases x)
    case Nil
    with k show ?thesis by simp
  next
    case (Cons a x')
    show ?thesis
    proof (cases "token_at \<sigma> x")
      case True
      then obtain k1 v1 rest where r: "x = CHR ''{'' # k1 # CHR ''}'' # rest" and k1: "\<sigma> k1 = Some v1"
        by (rule token_atE)
      have "substitute \<sigma> (x @ CHR ''{'' # k # CHR ''}'' # y) =
          v1 @ substitute \<sigma> (rest @ CHR ''{'' # k # CHR ''}'' # y)"
        using k1 by (simp add: r)
      also have "substitute \<sigma> (rest @ CHR ''{'' # k # CHR ''}'' # y) =
          substitute \<sigma> rest @ v @ substitute \<sigma> y"
        by (rule 1 [rule_format]) (simp add: r)
      finally show ?thesis
        using k1 by (simp add: r)
    next
      case False
      have n: "\<not> token_at \<sigma> (a # (x' @ CHR ''{'' # k # CHR ''}'' # y))"
      proof
        assume "token_at \<sigma> (a # (x' @ CHR ''{'' # k # CHR ''}'' # y))"
        then obtain k1 v1 rest where
          r: "a # (x' @ CHR ''{'' # k # CHR ''}'' # y) = CHR ''{'' # k1 # CHR ''}'' # rest"
          and k1: "\<sigma> k1 = Some v1"
          by (rule token_atE)
        show False
        proof (cases x')
          case Nil
          with r k1 b show False by simp
        next
          case c1: (Cons b1 x'')
          show False
          proof (cases x'')
            case Nil
            with r c1 show False by simp
          next
            case c2: (Cons b2 x''')
            with r c1 k1 Cons have "token_at \<sigma> x" by (simp add: token_at_iff)
            with False show False ..
          qed
        qed
      qed
      have s1: "substitute \<sigma> (x @ CHR ''{'' # k # CHR ''}'' # y) =
          a # substitute \<sigma> (x' @ CHR ''{'' # k # CHR ''}'' # y)"
        unfolding Cons append_Cons using n by (rule substitute_no_token)
      have s2: "substitute \<sigma> (x' @ CHR ''{'' # k # CHR ''}'' # y) =
          substitute \<sigma> x' @ v @ substitute \<sigma> y"
        by (rule 1 [rule_format]) (simp add: Cons)
      have s3: "substitute \<sigma> x = a # substitute \<sigma> x'"
        unfolding Cons using False [unfolded Cons] by (rule substitute_no_token)
      show ?thesis by (simp only: s1 s2 s3 append_Cons)
    qed
  qed
qed

lemma substitute_around_plain:
  assumes u: "u \<noteq> []" "CHR ''{'' \<notin> set u" "CHR ''}'' \<notin> set u" and keys: "\<forall>c\<in>set u. \<sigma> c = None"
  shows "substitute \<sigma> (x @ u @ y) = substitute \<sigma> x @ u @ substitute \<sigma> y"
proof (induction x rule: length_induct)
  case (1 x)
  show ?case
  proof (cases x)
    case Nil
    with u(2) show ?thesis by (simp add: substitute_plain)
  next
    case (Cons a x')
    from u(1) obtain u1 u' where uu: "u = u1 # u'" by (cases u) auto
    show ?thesis
    proof (cases "token_at \<sigma> x")
      case True
      then obtain k1 v1 rest where r: "x = CHR ''{'' # k1 # CHR ''}'' # rest" and k1: "\<sigma> k1 = Some v1"
        by (rule token_atE)
      have "substitute \<sigma> (x @ u @ y) = v1 @ substitute \<sigma> (rest @ u @ y)"
        using k1 by (simp add: r)
      also have "substitute \<sigma> (rest @ u @ y) = substitute \<sigma> rest @ u @ substitute \<sigma> y"
        by (rule 1 [rule_format]) (simp add: r)
      finally show ?thesis
        using k1 by (simp add: r)
    next
      case False
      have n: "\<not> token_at \<sigma> (a # (x' @ u @ y))"
      proof
        assume "token_at \<sigma> (a # (x' @ u @ y))"
        then obtain k1 v1 rest where
          r: "a # (x' @ u @ y) = CHR ''{'' # k1 # CHR ''}'' # rest" and k1: "\<sigma> k1 = Some v1"
          by (rule token_atE)
        show False
        proof (cases x')
          case Nil
          with r uu have "k1 = u1" by simp
          with keys uu k1 show False by simp
        next
          case c1: (Cons b1 x'')
          show False
          proof (cases x'')
            case Nil
            with r c1 uu have "u1 = CHR ''}''" by simp
            with u(3) uu show False by simp
          next
            case c2: (Cons b2 x''')
            with r c1 k1 Cons have "token_at \<sigma> x" by (simp add: token_at_iff)
            with False show False ..
          qed
        qed
      qed
      have s1: "substitute \<sigma> (x @ u @ y) = a # substitute \<sigma> (x' @ u @ y)"
        unfolding Cons append_Cons using n by (rule substitute_no_token)
      have s2: "substitute \<sigma> (x' @ u @ y) = substitute \<sigma> x' @ u @ substitute \<sigma> y"
        by (rule 1 [rule_format]) (simp add: Cons)
      have s3: "substitute \<sigma> x = a # substitute \<sigma> x'"
        unfolding Cons using False [unfolded Cons] by (rule substitute_no_token)
      show ?thesis by (simp only: s1 s2 s3 append_Cons)
    qed
  qed
qed


lemma apply_pattern_literal:
  "CHR ''{'' \<notin> set lit \<Longrightarrow> fst (apply_pattern e lit seed w) = lit"
  by (simp add: apply_pattern_eq replace_absent)

lemma substitute_around_index:
  assumes "c = CHR ''a'' \<or> c = CHR ''d'' \<or> c = CHR ''s''"
  shows "substitute [c \<mapsto> v] (x @ str_int seed @ y) =
         substitute [c \<mapsto> v] x @ str_int seed @ substitute [c \<mapsto> v] y"
proof (rule substitute_around_plain)
  show "str_int seed \<noteq> []" by (rule str_int_not_Nil)
  show "CHR ''{'' \<notin> set (str_int seed)" "CHR ''}'' \<notin> set (str_int seed)"
    by (rule str_int_no_brace)+
  show "\<forall>k\<in>set (str_int seed). [c \<mapsto> v] k = None"
    using assms str_int_not_key [of seed] by auto
qed

lemma apply_pattern_splits:
  "fst (apply_pattern e (pre @ ''{n}'' @ post) seed w) =
     fst (apply_pattern e pre seed w) @ str_int seed @ fst (apply_pattern e post seed w)"
proof -
  let ?n = "str_int seed"
  have "substitute [CHR ''n'' \<mapsto> ?n] (pre @ CHR ''{'' # CHR ''n'' # CHR ''}'' # post) =
      substitute [CHR ''n'' \<mapsto> ?n] pre @ ?n @ substitute [CHR ''n'' \<mapsto> ?n] post"
    by (rule substitute_around_token) simp_all
  then have 1: "substitute [CHR ''n'' \<mapsto> ?n] (pre @ ''{n}'' @ post) =
      substitute [CHR ''n'' \<mapsto> ?n] pre @ ?n @ substitute [CHR ''n'' \<mapsto> ?n] post"
    by simp
  show ?thesis
    unfolding apply_pattern_eq fst_conv replace_token
    by (simp only: 1 substitute_around_index [OF disjI1 [OF refl]]
        substitute_around_index [OF disjI2 [OF disjI1 [OF refl]]]
        substitute_around_index [OF disjI2 [OF disjI2 [OF refl]]])
qed

text \<open>
  C8. The expansion of \<^verbatim>\<open>user{n}\<close> at seed 5 is \<^verbatim>\<open>user5\<close> for every state of the random
  generator. In general, for every pattern and every occurrence of \<^verbatim>\<open>{n}\<close> in it, whatever
  the texts before and after it contain (other tokens, further occurrences of \<^verbatim>\<open>{n}\<close>)
  and whatever is drawn, the expansion is the expansion of the text before, \<^verbatim>\<open>str(seed)\<close>,
  and the expansion of the text after; a text without an opening brace expands to itself;
  and \<^verbatim>\<open>str(seed)\<close> is the decimal numeral of the seed: for a seed of 0 or more, digits
  only, with the seed as its value and no leading zero when the seed is positive; for a
  negative seed, a minus sign before the numeral of its absolute value.
\<close>

theorem apply_pattern_index_deterministic:
  "fst (apply_pattern e ''user{n}'' 5 w) = ''user5'' \<and>
   fst (apply_pattern e (pre @ ''{n}'' @ post) seed w) =
     fst (apply_pattern e pre seed w) @ str_int seed @ fst (apply_pattern e post seed w) \<and>
   (CHR ''{'' \<notin> set lit \<longrightarrow> fst (apply_pattern e lit seed w) = lit) \<and>
   (0 \<le> seed \<longrightarrow>
      set (str_int seed) \<subseteq> set digits \<and> decimal_value (str_int seed) = nat seed \<and>
      (0 < seed \<longrightarrow> hd (str_int seed) \<noteq> CHR ''0'')) \<and>
   (seed < 0 \<longrightarrow> str_int seed = CHR ''-'' # str_int (- seed))"
proof -
  have "fst (apply_pattern e (''user'' @ ''{n}'' @ []) 5 w) =
      fst (apply_pattern e ''user'' 5 w) @ str_int 5 @ fst (apply_pattern e [] 5 w)"
    by (rule apply_pattern_splits)
  moreover have "fst (apply_pattern e ''user'' 5 w) = ''user''" "fst (apply_pattern e [] 5 w) = []"
    by (rule apply_pattern_literal, simp)+
  moreover have "str_int 5 = ''5''"
    by (simp add: str_int_def str_nat.simps digits_def)
  ultimately have a: "fst (apply_pattern e ''user{n}'' 5 w) = ''user5''"
    by simp
  have b: "CHR ''{'' \<notin> set lit \<longrightarrow> fst (apply_pattern e lit seed w) = lit"
    by (simp add: apply_pattern_literal)
  have c: "0 \<le> seed \<longrightarrow>
      set (str_int seed) \<subseteq> set digits \<and> decimal_value (str_int seed) = nat seed \<and>
      (0 < seed \<longrightarrow> hd (str_int seed) \<noteq> CHR ''0'')"
    by (simp add: str_int_def set_str_nat decimal_value_str_nat hd_str_nat)
  have d: "seed < 0 \<longrightarrow> str_int seed = CHR ''-'' # str_int (- seed)"
    by (simp add: str_int_def)
  show ?thesis
    by (intro conjI a apply_pattern_splits b c d)
qed

theorem apply_pattern_index_deterministic_witness:
  "CHR ''{'' \<notin> set ''id-'' \<and> (0::int) \<le> 42 \<and> (0::int) < 42 \<and> (- 7::int) < 0 \<and>
   fst (apply_pattern env_ok ''user{n}{d}'' 5 world0) = ''user54'' \<and>
   fst (apply_pattern env_ok ''id-{n}-{d}{n}'' 42 world0) = ''id-42-442'' \<and>
   fst (apply_pattern env_ok ''id-'' 42 world0) = ''id-'' \<and>
   set (str_int 42) \<subseteq> set digits \<and> decimal_value (str_int 42) = 42 \<and>
   hd (str_int 42) \<noteq> CHR ''0'' \<and> str_int (- 7) = ''-7''"
proof -
  have s: "str_int 42 = ''42''" "str_int 5 = ''5''" "str_int 7 = ''7''"
    by (simp_all add: str_int_def str_nat.simps digits_def)
  have p: "fst (apply_pattern env_ok ''{d}'' 5 world0) = ''4''"
    "fst (apply_pattern env_ok ''-{d}'' 42 world0) = ''-4''"
    by (simp_all add: apply_pattern_eq replace_token drawn_env_ok world0_def)
  note t1 = apply_pattern_index_deterministic [of env_ok world0 "''user''" "''{d}''" 5 "''user''"]
  note t2 = apply_pattern_index_deterministic [of env_ok world0 "''id-''" "''-{d}{n}''" 42 "''id-''"]
  note t3 = apply_pattern_index_deterministic [of env_ok world0 "''-{d}''" "[]" 42 "[]"]
  note t4 = apply_pattern_index_deterministic [of env_ok world0 "[]" "[]" "- 7" "[]"]
  have u1: "fst (apply_pattern env_ok ''user'' 5 world0) = ''user''"
    using t1 [THEN conjunct2, THEN conjunct2, THEN conjunct1] by simp
  have u2: "fst (apply_pattern env_ok ''id-'' 42 world0) = ''id-''"
    using t2 [THEN conjunct2, THEN conjunct2, THEN conjunct1] by simp
  have u3: "fst (apply_pattern env_ok [] 42 world0) = []"
    using t3 [THEN conjunct2, THEN conjunct2, THEN conjunct1] by simp
  have r1: "fst (apply_pattern env_ok ''user{n}{d}'' 5 world0) = ''user54''"
    using t1 [THEN conjunct2, THEN conjunct1] by (simp add: u1 p s)
  have r3: "fst (apply_pattern env_ok ''-{d}{n}'' 42 world0) = ''-442''"
    using t3 [THEN conjunct2, THEN conjunct1] by (simp add: u3 p s)
  have r2: "fst (apply_pattern env_ok ''id-{n}-{d}{n}'' 42 world0) = ''id-42-442''"
    using t2 [THEN conjunct2, THEN conjunct1] by (simp add: u2 r3 s)
  have n: "set (str_int 42) \<subseteq> set digits \<and> decimal_value (str_int 42) = 42 \<and>
      hd (str_int 42) \<noteq> CHR ''0''"
    using t2 [THEN conjunct2, THEN conjunct2, THEN conjunct2, THEN conjunct1] by simp
  have m: "str_int (- 7) = ''-7''"
    using t4 [THEN conjunct2, THEN conjunct2, THEN conjunct2, THEN conjunct2] by (simp add: s)
  show ?thesis
    using r1 r2 u2 n m by simp
qed

end
